theory Spec2Isabelle
  imports Complex_Main "HOL-Library.Log_Nat"
begin

section \<open>Data model\<close>

text \<open>
  A JavaScript number is a binary64 value. Numbers that the code only carries
  (coordinates, distances, the confidence) are rationals here. The two samplers compute
  with numbers, and there every operation of the source is followed by the rounding
  \<open>fl\<close> to binary64 defined below.

  A \<open>Coordinate\<close> is the interface of \<^verbatim>\<open>src/types/coordinates.ts\<close>. Its \<open>timestamp\<close> field
  holds the value that \<^verbatim>\<open>new Date(c.timestamp).getTime()\<close> reads from the source's date
  string: the time value of a date that parses, an integer of at most \<open>8.64 * 10^15\<close> in
  absolute value and so a binary64 value itself (a string that does not parse gives
  \<^verbatim>\<open>NaN\<close>, which is outside this model).
\<close>

type_synonym number = rat

record Coordinate =
  coord_id :: string
  latitude :: number
  longitude :: number
  timestamp :: int

section \<open>Binary64 arithmetic\<close>

text \<open>
  \<open>ilog2 x\<close> is the exponent of a positive \<open>x\<close>, the integer \<open>k\<close> with
  \<open>2^k \<le> x < 2^(k+1)\<close>.
\<close>

definition ilog2 :: "rat \<Rightarrow> int" where
  "ilog2 x = (if 1 \<le> x then bitlen \<lfloor>x\<rfloor> - 1 else - bitlen (\<lceil>1 / x\<rceil> - 1))"

text \<open>Rounding to the nearest integer, a tie going to the even one.\<close>

definition roundHalfEven :: "rat \<Rightarrow> int" where
  "roundHalfEven z =
     (let f = \<lfloor>z\<rfloor>; r = z - of_int f
      in if r < 1 / 2 then f
         else if 1 / 2 < r then f + 1
         else if even f then f else f + 1)"

text \<open>
  \<open>fl x\<close> is the binary64 value nearest to \<open>x\<close> (IEEE 754 round-to-nearest, ties to
  even): a significand of 53 bits, scaled by a power of two that is at least \<open>2^-1074\<close>.
  Overflow to infinity (from \<open>2^1024\<close> on) is not modelled; the samplers stay far below.
\<close>

definition fl :: "rat \<Rightarrow> rat" where
  "fl x =
     (if x = 0 then 0
      else
        (let e = max (ilog2 \<bar>x\<bar> - 52) (- 1074);
             m = roundHalfEven (\<bar>x\<bar> / power_int 2 e)
         in sgn x * of_int m * power_int 2 e))"

text \<open>Half the spacing of the binary64 values around \<open>y \<ge> 1\<close>, named for the proofs.\<close>

definition halfUlp :: "rat \<Rightarrow> rat" where
  "halfUlp y = 1 / (2 * 2 ^ nat (52 - ilog2 y))"

section \<open>Server handler: sampling (\<^verbatim>\<open>src/app/api/map-match/route.ts\<close>)\<close>

definition maxCoordinates :: nat where
  "maxCoordinates = 100"

text \<open>
  The loop of lines 58-64. It runs over the indices \<open>1 .. length - 2\<close>; the list argument
  is that slice. A coordinate is kept when its time has reached the binary64 sum
  \<^verbatim>\<open>currentTime + timeStep\<close>, and \<open>currentTime\<close> then moves to it.
\<close>

fun timeLoop :: "number \<Rightarrow> int \<Rightarrow> Coordinate list \<Rightarrow> Coordinate list" where
  "timeLoop timeStep currentTime [] = []"
| "timeLoop timeStep currentTime (c # cs) =
     (let coordTime = timestamp c
      in if of_int coordTime \<ge> fl (of_int currentTime + timeStep)
         then c # timeLoop timeStep coordTime cs
         else timeLoop timeStep currentTime cs)"

text \<open>
  Lines 47-50 with the constant \<open>maxCoordinates\<close> as the parameter \<open>M\<close>: the difference of
  the two time values and its quotient by \<open>M - 1\<close>, each rounded. The handler's \<open>M\<close> is
  100; the theorems below take \<open>M \<ge> 2\<close>, where the divisor is positive.
\<close>

definition sampleTimeStep :: "nat \<Rightarrow> Coordinate list \<Rightarrow> number" where
  "sampleTimeStep M sortedCoordinates =
     (let timeSpan = fl (of_int (timestamp (last sortedCoordinates)
                                 - timestamp (hd sortedCoordinates)))
      in fl (timeSpan / (of_nat M - 1)))"

text \<open>
  Lines 45-68. The branch is entered only when the sequence is longer than \<open>M\<close>, so it
  has a first and a last element.
\<close>

definition timeSample :: "nat \<Rightarrow> Coordinate list \<Rightarrow> Coordinate list" where
  "timeSample M sortedCoordinates =
     (if length sortedCoordinates > M then
        (let timeStep = sampleTimeStep M sortedCoordinates;
             currentTime = timestamp (hd sortedCoordinates)
         in [hd sortedCoordinates]
            @ timeLoop timeStep currentTime (butlast (tl sortedCoordinates))
            @ [last sortedCoordinates])
      else sortedCoordinates)"

definition processCoordinates :: "Coordinate list \<Rightarrow> Coordinate list" where
  "processCoordinates sortedCoordinates = timeSample maxCoordinates sortedCoordinates"

text \<open>
  The value of \<open>currentTime\<close> after the loop has run over a slice: the time of the fix
  pushed last, or the starting value when none was pushed.
\<close>

definition currentTimeAfter :: "number \<Rightarrow> int \<Rightarrow> Coordinate list \<Rightarrow> int" where
  "currentTimeAfter timeStep currentTime cs =
     (case timeLoop timeStep currentTime cs of
        [] \<Rightarrow> currentTime
      | kept \<Rightarrow> timestamp (last kept))"

text \<open>
  \<^verbatim>\<open>Math.round\<close>: the integer nearest to a binary64 value, a tie going up. The result is
  exact, since every integer below \<open>2^53\<close> is a binary64 value.
\<close>

definition Math_round :: "number \<Rightarrow> int" where
  "Math_round x = \<lfloor>x + 1 / 2\<rfloor>"

text \<open>
  \<^verbatim>\<open>sampleCoordinatesEvenly\<close>, lines 187-202. The quotient \<^verbatim>\<open>step\<close> and each product
  \<^verbatim>\<open>i * step\<close> are rounded to binary64. The loop variable \<open>i\<close> runs over
  \<open>1 .. targetCount - 2\<close>. Every index read is in range for an array of at most \<open>2^32\<close>
  elements (lemmas \<open>evenIndex_pos\<close> and \<open>evenIndex_below_last\<close> below), so \<open>!\<close> never
  reads outside the array.
\<close>

definition sampleCoordinatesEvenly :: "'a list \<Rightarrow> nat \<Rightarrow> 'a list" where
  "sampleCoordinatesEvenly coordinates targetCount =
     (if length coordinates \<le> targetCount then coordinates
      else
        (let step = fl (of_nat (length coordinates - 1) / (of_nat targetCount - 1))
         in [coordinates ! 0]
            @ map (\<lambda>i. coordinates ! nat (Math_round (fl (of_nat i * step))))
                [1..<targetCount - 1]
            @ [coordinates ! (length coordinates - 1)]))"

text \<open>
  The step of the sampler and the index it reads for slot \<open>i\<close>, named for the proofs.
\<close>

definition evenStep :: "nat \<Rightarrow> nat \<Rightarrow> number" where
  "evenStep len M = fl (of_nat (len - 1) / (of_nat M - 1))"

definition evenIndex :: "nat \<Rightarrow> nat \<Rightarrow> nat \<Rightarrow> nat" where
  "evenIndex len M i = nat (Math_round (fl (of_nat i * evenStep len M)))"

section \<open>Server handler: the external services and the response\<close>

text \<open>
  The interfaces of \<^verbatim>\<open>route.ts\<close>. The handler tests \<^verbatim>\<open>data.matchings\<close> and
  \<^verbatim>\<open>data.tracepoints\<close> for presence, so both are optional here; a tracepoint may be
  \<^verbatim>\<open>null\<close>.
\<close>

record Geometry =
  geom_type :: string
  geom_coordinates :: "number list list"

record Matching =
  matching_geometry :: Geometry
  matching_distance :: number
  matching_duration :: number
  matching_confidence :: number

record Tracepoint =
  matchings_index :: nat
  waypoint_index :: nat
  alternatives_count :: nat
  distance_along_geometry :: number

record MapboxMatchingResponse =
  matchings :: "Matching list option"
  tracepoints :: "Tracepoint option list option"

record Route =
  route_geometry :: Geometry
  route_distance :: number
  route_duration :: number

record DirectionsResponse =
  routes :: "Route list option"

text \<open>
  What a \<^verbatim>\<open>fetch\<close> gives back. \<open>Rejected\<close>: the promise rejects (the call throws).
  \<open>Responded ok body\<close>: a response with its \<^verbatim>\<open>ok\<close> flag, whose body either parses to a
  value of the expected shape or does not (\<^verbatim>\<open>JSON.parse\<close> / \<^verbatim>\<open>json()\<close> throws, or a
  later property access on the parsed value throws).
\<close>

datatype 'a body = Unparseable | Parsed 'a

datatype 'a fetched = Rejected | Responded bool "'a body"

text \<open>
  A request to one of the two endpoints: the \<open>longitude,latitude\<close> pairs of the URL path
  and, for the matching endpoint, the \<open>radiuses\<close> parameter. The fixed query parameters
  are not part of the model.
\<close>

datatype api_call =
  MatchingCall "(number \<times> number) list" "string list"
| DirectionsCall "(number \<times> number) list"

text \<open>
  The JSON object of a successful response. The field \<open>route_method\<close> is the source's
  \<^verbatim>\<open>method\<close>; an absent property is \<open>None\<close>.
\<close>

record RouteResult =
  geometry :: Geometry
  distance :: "number option"
  duration :: "number option"
  confidence :: "number option"
  route_method :: string
  processedPoints :: nat
  originalPoints :: nat

datatype response = ErrorResponse nat string | RouteResponse RouteResult

text \<open>
  The request body. \<open>BadBody\<close>: \<^verbatim>\<open>request.json()\<close> or the destructuring throws.
  \<open>Body None\<close>: the object has no (or a null) \<^verbatim>\<open>coordinates\<close> field.
\<close>

datatype request_body = BadBody | Body "Coordinate list option"

definition tokenMissing :: "string option \<Rightarrow> bool" where
  "tokenMissing token = (token = None \<or> token = Some [])"

definition lonLat :: "Coordinate \<Rightarrow> number \<times> number" where
  "lonLat coord = (longitude coord, latitude coord)"

definition sortCoordinates :: "Coordinate list \<Rightarrow> Coordinate list" where
  "sortCoordinates coordinates = sort_key timestamp coordinates"

definition matchingCall :: "Coordinate list \<Rightarrow> api_call" where
  "matchingCall cs = MatchingCall (map lonLat cs) (map (\<lambda>_. ''25'') cs)"

definition failedToProcess :: response where
  "failedToProcess = ErrorResponse 500 ''Failed to process route''"

text \<open>Lines 91-119: the result of the matching stage, if it has one.\<close>

definition mapMatchingResult ::
  "bool \<Rightarrow> MapboxMatchingResponse body \<Rightarrow> Coordinate list \<Rightarrow> nat \<Rightarrow> RouteResult option" where
  "mapMatchingResult ok parsed processedCoordinates original =
     (if ok then
        (case parsed of
           Unparseable \<Rightarrow> None
         | Parsed data \<Rightarrow>
             (case matchings data of
                Some (matching # _) \<Rightarrow>
                  (let validTracepoints =
                         (case tracepoints data of
                            None \<Rightarrow> []
                          | Some tps \<Rightarrow> filter (\<lambda>tp. tp \<noteq> None) tps);
                       conf = of_nat (length validTracepoints)
                                / of_nat (length processedCoordinates)
                   in Some \<lparr>geometry = matching_geometry matching,
                            distance = Some (matching_distance matching),
                            duration = Some (matching_duration matching),
                            confidence = Some conf,
                            route_method = ''map-matching'',
                            processedPoints = length processedCoordinates,
                            originalPoints = original\<rparr>)
              | _ \<Rightarrow> None))
      else None)"

text \<open>Lines 157-173: the simple line, built without any call.\<close>

definition simpleCoordinates :: "Coordinate list \<Rightarrow> Coordinate list" where
  "simpleCoordinates processedCoordinates =
     (if length processedCoordinates > 50
      then sampleCoordinatesEvenly processedCoordinates 50
      else processedCoordinates)"

definition simpleFallback :: "Coordinate list \<Rightarrow> nat \<Rightarrow> RouteResult" where
  "simpleFallback processedCoordinates original =
     \<lparr>geometry = \<lparr>geom_type = ''LineString'',
                  geom_coordinates =
                    map (\<lambda>coord. [longitude coord, latitude coord])
                      (simpleCoordinates processedCoordinates)\<rparr>,
      distance = None,
      duration = None,
      confidence = None,
      route_method = ''simple'',
      processedPoints = length (simpleCoordinates processedCoordinates),
      originalPoints = original\<rparr>"

text \<open>
  Lines 121-173: the directions request and what follows it. The body of an ok response is
  read by \<^verbatim>\<open>directionsResponse.json()\<close> outside any inner \<^verbatim>\<open>try\<close>, so a body that does
  not parse reaches the handler's outer \<^verbatim>\<open>catch\<close>.
\<close>

definition directionsCoordinates :: "Coordinate list \<Rightarrow> Coordinate list" where
  "directionsCoordinates processedCoordinates =
     (if length processedCoordinates > 25
      then sampleCoordinatesEvenly processedCoordinates 25
      else processedCoordinates)"

definition directionsStage ::
  "(api_call \<Rightarrow> DirectionsResponse fetched) \<Rightarrow> Coordinate list \<Rightarrow> nat
     \<Rightarrow> response \<times> api_call list" where
  "directionsStage directionsApi processedCoordinates original =
     (let call = DirectionsCall (map lonLat (directionsCoordinates processedCoordinates));
          simple = RouteResponse (simpleFallback processedCoordinates original)
      in (case directionsApi call of
            Rejected \<Rightarrow> (failedToProcess, [call])
          | Responded ok parsed \<Rightarrow>
              (if ok then
                 (case parsed of
                    Unparseable \<Rightarrow> (failedToProcess, [call])
                  | Parsed directionsData \<Rightarrow>
                      (case routes directionsData of
                         Some (route # _) \<Rightarrow>
                           (RouteResponse
                              \<lparr>geometry = route_geometry route,
                               distance = Some (route_distance route),
                               duration = Some (route_duration route),
                               confidence = None,
                               route_method = ''directions'',
                               processedPoints =
                                 length (directionsCoordinates processedCoordinates),
                               originalPoints = original\<rparr>,
                            [call])
                       | _ \<Rightarrow> (simple, [call])))
               else (simple, [call]))))"

text \<open>
  The handler \<^verbatim>\<open>POST\<close>, lines 24-184. It returns the response and the list of requests
  sent to the external service, in order.
\<close>

definition POST ::
  "string option \<Rightarrow> (api_call \<Rightarrow> MapboxMatchingResponse fetched)
     \<Rightarrow> (api_call \<Rightarrow> DirectionsResponse fetched) \<Rightarrow> request_body
     \<Rightarrow> response \<times> api_call list" where
  "POST MAPBOX_ACCESS_TOKEN matchingApi directionsApi request =
     (case request of
        BadBody \<Rightarrow> (failedToProcess, [])
      | Body coordinates \<Rightarrow>
          (if tokenMissing MAPBOX_ACCESS_TOKEN
           then (ErrorResponse 500 ''Mapbox access token not configured'', [])
           else
             (case coordinates of
                None \<Rightarrow> (ErrorResponse 400 ''At least 2 coordinates are required'', [])
              | Some cs \<Rightarrow>
                  (if length cs < 2
                   then (ErrorResponse 400 ''At least 2 coordinates are required'', [])
                   else
                     (let sortedCoordinates = sortCoordinates cs;
                          processedCoordinates = processCoordinates sortedCoordinates;
                          call = matchingCall processedCoordinates
                      in (case matchingApi call of
                            Rejected \<Rightarrow> (failedToProcess, [call])
                          | Responded ok parsed \<Rightarrow>
                              (case mapMatchingResult ok parsed processedCoordinates (length cs) of
                                 Some result \<Rightarrow> (RouteResponse result, [call])
                               | None \<Rightarrow>
                                   (let (resp, calls) =
                                          directionsStage directionsApi processedCoordinates
                                            (length cs)
                                    in (resp, call # calls)))))))))"

section \<open>Client pipeline (\<^verbatim>\<open>src/components/map-component.tsx\<close>)\<close>

text \<open>
  The client reads \<^verbatim>\<open>matching.confidence\<close> and \<^verbatim>\<open>matching.legs?.length\<close> from the
  untyped response; both may be missing.
\<close>

record ClientMatching =
  cm_geometry :: Geometry
  cm_confidence :: "number option"
  cm_legs_length :: "nat option"

record ClientMatchingData =
  cm_matchings :: "ClientMatching list option"

text \<open>The interface \<^verbatim>\<open>MapMatchingResponse\<close> of the component.\<close>

record MapMatchingResponse =
  mm_geometry :: Geometry
  mm_method :: string
  mm_confidence :: number
  mm_processedPoints :: nat
  mm_originalPoints :: nat

definition maxPointsPerRequest :: nat where
  "maxPointsPerRequest = 100"

text \<open>\<^verbatim>\<open>Array.prototype.slice(a, b)\<close> for \<open>0 \<le> a \<le> b\<close>.\<close>

definition slice :: "nat \<Rightarrow> nat \<Rightarrow> 'a list \<Rightarrow> 'a list" where
  "slice a b xs = take (b - a) (drop a xs)"

text \<open>The loop of lines 87-92, from the value \<open>i\<close> of its counter.\<close>

function batchLoop :: "nat \<Rightarrow> 'a list \<Rightarrow> 'a list list" where
  "batchLoop i coordinates =
     (if i < length coordinates then
        (let batch = slice i (i + maxPointsPerRequest) coordinates
         in (if length batch \<ge> 2 then [batch] else [])
            @ batchLoop (i + maxPointsPerRequest) coordinates)
      else [])"
  by pat_completeness auto
termination
  by (relation "measure (\<lambda>(i, coordinates). length coordinates - i)")
     (auto simp: maxPointsPerRequest_def)

definition splitBatches :: "'a list \<Rightarrow> 'a list list" where
  "splitBatches coordinates = batchLoop 0 coordinates"

text \<open>\<^verbatim>\<open>performMapMatching\<close>, lines 34-77: every exception ends in \<^verbatim>\<open>null\<close>.\<close>

definition performMapMatching ::
  "(api_call \<Rightarrow> ClientMatchingData fetched) \<Rightarrow> Coordinate list
     \<Rightarrow> MapMatchingResponse option \<times> api_call list" where
  "performMapMatching matchingApi coordinates =
     (if length coordinates < 2 then (None, [])
      else
        (let call = matchingCall coordinates
         in (case matchingApi call of
               Responded True (Parsed data) \<Rightarrow>
                 (case cm_matchings data of
                    Some (matching # _) \<Rightarrow>
                      (Some \<lparr>mm_geometry = cm_geometry matching,
                             mm_method = ''map-matching'',
                             mm_confidence =
                               (case cm_confidence matching of
                                  None \<Rightarrow> 4 / 5
                                | Some c \<Rightarrow> if c = 0 then 4 / 5 else c),
                             mm_processedPoints =
                               (case cm_legs_length matching of None \<Rightarrow> 0 | Some n \<Rightarrow> n),
                             mm_originalPoints = length coordinates\<rparr>,
                       [call])
                  | _ \<Rightarrow> (None, [call]))
             | _ \<Rightarrow> (None, [call]))))"

text \<open>
  \<^verbatim>\<open>performBatchMapMatching\<close>, lines 80-137. The requests of the batches start in batch
  order, and \<^verbatim>\<open>Promise.all\<close> returns their results in that order.
\<close>

definition performBatchMapMatching ::
  "(api_call \<Rightarrow> ClientMatchingData fetched) \<Rightarrow> Coordinate list
     \<Rightarrow> MapMatchingResponse option \<times> api_call list" where
  "performBatchMapMatching matchingApi coordinates =
     (if length coordinates < 2 then (None, [])
      else
        (let batches = splitBatches coordinates
         in if batches = [] then (None, [])
            else
              (let batchResults = map (performMapMatching matchingApi) batches;
                   calls = concat (map snd batchResults);
                   successfulResults = List.map_filter fst batchResults
               in if successfulResults = [] then (None, calls)
                  else
                    (let lineStrings =
                           filter (\<lambda>result. geom_type (mm_geometry result) = ''LineString'')
                             successfulResults
                     in (Some
                           \<lparr>mm_geometry =
                              \<lparr>geom_type = ''LineString'',
                               geom_coordinates =
                                 concat (map (\<lambda>result. geom_coordinates (mm_geometry result))
                                           lineStrings)\<rparr>,
                            mm_method = ''map-matching'',
                            mm_confidence =
                              sum_list (map mm_confidence lineStrings)
                                / of_nat (length successfulResults),
                            mm_processedPoints = sum_list (map mm_processedPoints lineStrings),
                            mm_originalPoints = length coordinates\<rparr>,
                         calls)))))"

text \<open>
  The waypoint loop of lines 153-155, from the value \<open>i\<close> of its counter. The caller's
  \<open>step\<close> is \<^verbatim>\<open>Math.max(1, ...)\<close>, so it is positive.
\<close>

function waypointLoop :: "nat \<Rightarrow> nat \<Rightarrow> 'a list \<Rightarrow> 'a list" where
  "waypointLoop step i coordinates =
     (if 0 < step \<and> i < length coordinates - 1
      then coordinates ! i # waypointLoop step (i + step) coordinates
      else [])"
  by pat_completeness auto
termination
  by (relation "measure (\<lambda>(step, i, coordinates). length coordinates - 1 - i)") auto

definition waypoints :: "'a list \<Rightarrow> 'a list" where
  "waypoints coordinates =
     [hd coordinates]
     @ (if length coordinates > 2
        then (let step = max 1 (length coordinates div 23)
              in waypointLoop step step coordinates)
        else [])
     @ [last coordinates]"

text \<open>\<^verbatim>\<open>performDirectionsMatching\<close>, lines 140-191.\<close>

definition performDirectionsMatching ::
  "(api_call \<Rightarrow> DirectionsResponse fetched) \<Rightarrow> Coordinate list
     \<Rightarrow> MapMatchingResponse option \<times> api_call list" where
  "performDirectionsMatching directionsApi coordinates =
     (if length coordinates < 2 then (None, [])
      else
        (let call = DirectionsCall (map lonLat (waypoints coordinates))
         in (case directionsApi call of
               Responded True (Parsed data) \<Rightarrow>
                 (case routes data of
                    Some (route # _) \<Rightarrow>
                      (Some \<lparr>mm_geometry = route_geometry route,
                             mm_method = ''directions'',
                             mm_confidence = 9 / 10,
                             mm_processedPoints = length (waypoints coordinates),
                             mm_originalPoints = length coordinates\<rparr>,
                       [call])
                  | _ \<Rightarrow> (None, [call]))
             | _ \<Rightarrow> (None, [call]))))"

text \<open>
  \<^verbatim>\<open>processRoute\<close> with the guard of its effect, lines 221-247: matching first, in
  batches above 100 points, then the directions request when matching gave \<^verbatim>\<open>null\<close>.
\<close>

definition matchingAttempt ::
  "(api_call \<Rightarrow> ClientMatchingData fetched) \<Rightarrow> Coordinate list
     \<Rightarrow> MapMatchingResponse option \<times> api_call list" where
  "matchingAttempt matchingApi coordinates =
     (if length coordinates \<le> 100 then performMapMatching matchingApi coordinates
      else performBatchMapMatching matchingApi coordinates)"

definition processRoute ::
  "(api_call \<Rightarrow> ClientMatchingData fetched) \<Rightarrow> (api_call \<Rightarrow> DirectionsResponse fetched)
     \<Rightarrow> Coordinate list \<Rightarrow> MapMatchingResponse option \<times> api_call list" where
  "processRoute matchingApi directionsApi coordinates =
     (if length coordinates \<ge> 2 then
        (case matchingAttempt matchingApi coordinates of
           (Some matchedRoute, calls) \<Rightarrow> (Some matchedRoute, calls)
         | (None, calls) \<Rightarrow>
             (let (matchedRoute, calls') = performDirectionsMatching directionsApi coordinates
              in (matchedRoute, calls @ calls')))
      else (None, []))"


section \<open>Concrete inputs\<close>

text \<open>Fixes and service behaviours used to run the definitions on concrete inputs.\<close>

definition fixAt :: "int \<Rightarrow> Coordinate" where
  "fixAt t = \<lparr>coord_id = [], latitude = 0, longitude = 0, timestamp = t\<rparr>"

definition equalTimes :: "Coordinate list" where
  "equalTimes = map fixAt (replicate 101 0)"

definition clusteredTimes :: "Coordinate list" where
  "clusteredTimes = map fixAt (replicate 100 0 @ [990])"

definition twoFixes :: "Coordinate list" where
  "twoFixes = [fixAt 0, fixAt 1000]"

definition emptyLine :: Geometry where
  "emptyLine = \<lparr>geom_type = ''LineString'', geom_coordinates = []\<rparr>"

definition matchingDown :: "api_call \<Rightarrow> MapboxMatchingResponse fetched" where
  "matchingDown call = Responded False Unparseable"

definition matchingGarbled :: "api_call \<Rightarrow> MapboxMatchingResponse fetched" where
  "matchingGarbled call = Responded True Unparseable"

definition directionsDown :: "api_call \<Rightarrow> DirectionsResponse fetched" where
  "directionsDown call = Responded False Unparseable"

definition directionsOneRoute :: "api_call \<Rightarrow> DirectionsResponse fetched" where
  "directionsOneRoute call =
     Responded True
       (Parsed \<lparr>routes = Some [\<lparr>route_geometry = emptyLine,
                                 route_distance = 0,
                                 route_duration = 0\<rparr>]\<rparr>)"

definition clientMatchingDown :: "api_call \<Rightarrow> ClientMatchingData fetched" where
  "clientMatchingDown call = Responded False Unparseable"

text \<open>Readers of a response, for stating what the caller sees.\<close>

definition routeResult :: "response \<Rightarrow> RouteResult option" where
  "routeResult resp = (case resp of ErrorResponse _ _ \<Rightarrow> None | RouteResponse r \<Rightarrow> Some r)"

definition vertexCount :: "RouteResult \<Rightarrow> nat" where
  "vertexCount r = length (geom_coordinates (geometry r))"


text \<open>
  Five fixes one second apart, and seven fixes one millisecond apart from \<open>2^51\<close> ms on,
  where binary64 values are \<open>1/2\<close> apart.
\<close>

definition fiveFixes :: "Coordinate list" where
  "fiveFixes = map (\<lambda>k. fixAt (1000 * int k)) [0..<5]"

definition farTimes :: "Coordinate list" where
  "farTimes = map (\<lambda>k. fixAt (2 ^ 51 + int k)) [0..<7]"


section \<open>Binary64 rounding\<close>

lemma ilog2_ge_1: "1 \<le> y \<Longrightarrow> ilog2 y = bitlen \<lfloor>y\<rfloor> - 1"
  by (simp add: ilog2_def)

lemma ilog2_nonneg:
  assumes "1 \<le> y"
  shows "0 \<le> ilog2 y"
proof -
  have "0 < \<lfloor>y\<rfloor>" using assms by simp
  then have "bitlen \<lfloor>y\<rfloor> \<noteq> 0" by (simp add: bitlen_eq_zero_iff)
  then have "1 \<le> bitlen \<lfloor>y\<rfloor>" using bitlen_nonneg[of "\<lfloor>y\<rfloor>"] by simp
  then show ?thesis using assms by (simp add: ilog2_ge_1)
qed

lemma ilog2_lower:
  assumes "1 \<le> y"
  shows "2 ^ nat (ilog2 y) \<le> y"
proof -
  have "0 < \<lfloor>y\<rfloor>" using assms by simp
  from bitlen_bounds[OF this] have "(2::int) ^ nat (bitlen \<lfloor>y\<rfloor> - 1) \<le> \<lfloor>y\<rfloor>" by simp
  then have "(of_int ((2::int) ^ nat (bitlen \<lfloor>y\<rfloor> - 1)) :: rat) \<le> of_int \<lfloor>y\<rfloor>"
    by (simp only: of_int_le_iff)
  also have "\<dots> \<le> y" by simp
  finally show ?thesis using assms by (simp add: ilog2_ge_1)
qed

lemma ilog2_mono:
  assumes "1 \<le> y" and "y \<le> y'"
  shows "ilog2 y \<le> ilog2 y'"
proof -
  have "nat \<lfloor>y\<rfloor> \<le> nat \<lfloor>y'\<rfloor>" using assms(2) by (simp add: floor_mono nat_mono)
  then have "bitlen \<lfloor>y\<rfloor> \<le> bitlen \<lfloor>y'\<rfloor>"
    unfolding bitlen_def by (simp add: floorlog_mono)
  then show ?thesis using assms by (simp add: ilog2_ge_1)
qed

lemma ilog2_less:
  assumes "1 \<le> y" and "y < 2 ^ n"
  shows "ilog2 y < int n"
proof (rule ccontr)
  assume "\<not> ilog2 y < int n"
  then have "n \<le> nat (ilog2 y)" by simp
  then have "(2::rat) ^ n \<le> 2 ^ nat (ilog2 y)" by (simp add: power_increasing)
  then show False using ilog2_lower[OF assms(1)] assms(2) by linarith
qed

lemma roundHalfEven_error: "\<bar>of_int (roundHalfEven z) - z\<bar> \<le> 1 / 2"
proof -
  have "of_int \<lfloor>z\<rfloor> \<le> z" "z < of_int \<lfloor>z\<rfloor> + 1" by linarith+
  then show ?thesis
    by (auto simp: roundHalfEven_def Let_def abs_le_iff)
qed

lemma roundHalfEven_cases:
  "roundHalfEven z = \<lfloor>z + 1 / 2\<rfloor>
   \<or> (roundHalfEven z + 1 = \<lfloor>z + 1 / 2\<rfloor> \<and> even (roundHalfEven z))"
proof -
  let ?f = "\<lfloor>z\<rfloor>"
  have b: "of_int ?f \<le> z" "z < of_int ?f + 1" by linarith+
  consider "z - of_int ?f < 1 / 2" | "1 / 2 < z - of_int ?f" | "z - of_int ?f = 1 / 2"
    by linarith
  then show ?thesis
  proof cases
    case 1
    then have "\<lfloor>z + 1 / 2\<rfloor> = ?f" using b by linarith
    then show ?thesis using 1 by (simp add: roundHalfEven_def Let_def)
  next
    case 2
    then have "\<lfloor>z + 1 / 2\<rfloor> = ?f + 1" using b by linarith
    then show ?thesis using 2 by (simp add: roundHalfEven_def Let_def)
  next
    case 3
    then have "\<lfloor>z + 1 / 2\<rfloor> = ?f + 1" using b by linarith
    then show ?thesis using 3 by (simp add: roundHalfEven_def Let_def)
  qed
qed

lemma floor_divide_int:
  fixes x :: rat
  assumes "0 < N"
  shows "\<lfloor>x / of_int N\<rfloor> = \<lfloor>x\<rfloor> div N"
proof (rule floor_unique)
  let ?a = "\<lfloor>x\<rfloor>"
  have N: "(0::rat) < of_int N" using assms by simp
  have "of_int (?a div N) * of_int N = (of_int ((?a div N) * N) :: rat)" by simp
  also have "\<dots> \<le> of_int ?a"
    unfolding of_int_le_iff
    using pos_mod_sign[OF assms, of ?a] mult_div_mod_eq[of N ?a]
    by (simp only: mult.commute[of _ N])
  also have "\<dots> \<le> x" by simp
  finally show "of_int (?a div N) \<le> x / of_int N"
    using N by (simp add: pos_le_divide_eq)
  have "(?a div N + 1) * N = N * (?a div N) + N" by (simp add: algebra_simps)
  then have "?a < (?a div N + 1) * N"
    using pos_mod_bound[OF assms, of ?a] mult_div_mod_eq[of N ?a] by linarith
  then have "?a + 1 \<le> (?a div N + 1) * N" by simp
  then have "(of_int (?a + 1) :: rat) \<le> of_int ((?a div N + 1) * N)"
    by (simp only: of_int_le_iff)
  moreover have "x < of_int (?a + 1)" by linarith
  ultimately have "x < of_int ((?a div N + 1) * N)" by linarith
  then show "x / of_int N < of_int (?a div N) + 1"
    using N by (simp add: pos_divide_less_eq)
qed

lemma even_div_succ:
  fixes b N :: int
  assumes "even b" and "even N" and "0 < N"
  shows "(b + 1) div N = b div N"
proof -
  have "even (b mod N)" using assms(1,2) by (simp add: dvd_mod_iff)
  moreover have "b mod N < N" "0 \<le> b mod N" using assms(3) by simp_all
  moreover have "odd (N - 1)" using assms(2) by simp
  ultimately have "b mod N \<noteq> N - 1" by metis
  with \<open>b mod N < N\<close> have lt: "b mod N + 1 < N" by simp
  have "b + 1 = N * (b div N) + (b mod N + 1)" by simp
  then show ?thesis
    using lt \<open>0 \<le> b mod N\<close> by (intro int_div_pos_eq[of _ _ _ "b mod N + 1"]) simp_all
qed

lemma fl_scaled:
  assumes "1 \<le> y" and "ilog2 y \<le> 52"
  shows "fl y = of_int (roundHalfEven (y * 2 ^ nat (52 - ilog2 y))) / 2 ^ nat (52 - ilog2 y)"
proof -
  let ?p = "nat (52 - ilog2 y)"
  have k: "0 \<le> ilog2 y" by (rule ilog2_nonneg[OF assms(1)])
  have e: "max (ilog2 y - 52) (- 1074) = - int ?p" using k assms(2) by simp
  have pw: "power_int (2::rat) (- int ?p) = 1 / 2 ^ ?p"
    by (simp only: power_int_minus_divide power_int_of_nat)
  have a: "\<bar>y\<bar> = y" and s: "sgn y = 1" and nz: "y \<noteq> 0"
    using assms(1) by simp_all
  have "fl y = sgn y * of_int (roundHalfEven (\<bar>y\<bar>
                 / power_int 2 (max (ilog2 \<bar>y\<bar> - 52) (- 1074))))
               * power_int 2 (max (ilog2 \<bar>y\<bar> - 52) (- 1074))"
    using nz by (simp add: fl_def Let_def)
  also have "\<dots> = of_int (roundHalfEven (y / (1 / 2 ^ ?p))) * (1 / 2 ^ ?p)"
    by (simp only: a s e pw mult_1)
  finally show ?thesis by simp
qed

lemma fl_error:
  assumes "1 \<le> y" and "ilog2 y \<le> 52"
  shows "\<bar>fl y - y\<bar> \<le> halfUlp y"
proof -
  let ?p = "nat (52 - ilog2 y)"
  let ?r = "roundHalfEven (y * 2 ^ ?p)"
  have pos: "(0::rat) < 2 ^ ?p" by simp
  have "fl y - y = (of_int ?r - y * 2 ^ ?p) / 2 ^ ?p"
    unfolding fl_scaled[OF assms] by (simp add: field_simps)
  then have "\<bar>fl y - y\<bar> = \<bar>of_int ?r - y * 2 ^ ?p\<bar> / 2 ^ ?p"
    by (simp add: abs_divide)
  also have "\<dots> \<le> (1 / 2) / 2 ^ ?p"
    using roundHalfEven_error[of "y * 2 ^ ?p"] pos by (simp only: divide_right_mono less_imp_le)
  finally show ?thesis by (simp add: halfUlp_def)
qed

lemma halfUlp_relative:
  assumes "1 \<le> y" and "ilog2 y \<le> 52"
  shows "halfUlp y \<le> y / 2 ^ 53"
proof -
  let ?p = "nat (52 - ilog2 y)"
  let ?k = "nat (ilog2 y)"
  have k: "0 \<le> ilog2 y" by (rule ilog2_nonneg[OF assms(1)])
  have "?k + ?p = 52" using k assms(2) by simp
  then have "(2::rat) ^ 52 = 2 ^ ?k * 2 ^ ?p" by (simp only: power_add[symmetric])
  also have "\<dots> \<le> y * 2 ^ ?p"
    using ilog2_lower[OF assms(1)] by (simp only: mult_right_mono zero_le_power zero_le_numeral)
  finally have "(2::rat) ^ 52 \<le> y * 2 ^ ?p" .
  then have "1 / (2 * 2 ^ ?p) \<le> y / (2 * 2 ^ 52)"
    by (simp add: field_simps)
  then show ?thesis by (simp add: halfUlp_def)
qed

lemma halfUlp_mono:
  assumes "1 \<le> y" and "y \<le> y'" and "ilog2 y' \<le> 52"
  shows "halfUlp y \<le> halfUlp y'"
proof -
  have "ilog2 y \<le> ilog2 y'" by (rule ilog2_mono[OF assms(1,2)])
  then have "nat (52 - ilog2 y') \<le> nat (52 - ilog2 y)" by simp
  then have "(2::rat) ^ nat (52 - ilog2 y') \<le> 2 ^ nat (52 - ilog2 y)"
    by (simp add: power_increasing)
  then show ?thesis by (simp add: halfUlp_def frac_le)
qed

lemma Math_round_fl:
  assumes "1 \<le> y" and "ilog2 y \<le> 50"
  shows "Math_round (fl y) = \<lfloor>y + 1 / 2 + halfUlp y\<rfloor>"
proof -
  let ?p = "nat (52 - ilog2 y)"
  let ?N = "(2::int) ^ ?p"
  let ?H = "(2::int) ^ (?p - 1)"
  let ?z = "y * 2 ^ ?p"
  let ?r = "roundHalfEven ?z"
  have p2: "2 \<le> ?p" using assms(2) by simp
  have NH: "?N = 2 * ?H" using p2 by (simp add: power_eq_if)
  have evenH: "even ?H" using p2 by simp
  have evenN: "even ?N" using p2 by simp
  have Npos: "0 < ?N" by simp
  have Nrat: "(2::rat) ^ ?p = of_int ?N" by simp
  have Hrat: "(2::rat) ^ (?p - 1) = of_int ?H" by simp
  have NHrat: "(2::rat) ^ ?p = 2 * 2 ^ (?p - 1)" using p2 by (simp add: power_eq_if)
  have le52: "ilog2 y \<le> 52" using assms(2) by simp
  have "fl y + 1 / 2 = of_int ?r / 2 ^ ?p + 1 / 2"
    by (simp only: fl_scaled[OF assms(1) le52])
  also have "\<dots> = (of_int ?r + 2 ^ (?p - 1)) / 2 ^ ?p"
    unfolding NHrat by (simp add: field_simps)
  also have "\<dots> = (of_int (?r + ?H) :: rat) / of_int ?N"
    by simp
  finally have "Math_round (fl y) = \<lfloor>(of_int (?r + ?H) :: rat) / of_int ?N\<rfloor>"
    by (simp only: Math_round_def)
  also have "\<dots> = (?r + ?H) div ?N"
    by (rule floor_divide_of_int_eq)
  finally have lhs: "Math_round (fl y) = (?r + ?H) div ?N" .
  have "y + 1 / 2 + halfUlp y = (?z + 2 ^ (?p - 1) + 1 / 2) / 2 ^ ?p"
    unfolding halfUlp_def NHrat by (simp add: field_simps)
  also have "\<dots> = (?z + of_int ?H + 1 / 2) / of_int ?N"
    by simp
  finally have "y + 1 / 2 + halfUlp y = (?z + of_int ?H + 1 / 2) / of_int ?N" .
  then have "\<lfloor>y + 1 / 2 + halfUlp y\<rfloor> = \<lfloor>?z + of_int ?H + 1 / 2\<rfloor> div ?N"
    by (simp only: floor_divide_int[OF Npos])
  also have "\<lfloor>?z + of_int ?H + 1 / 2\<rfloor> = \<lfloor>?z + 1 / 2\<rfloor> + ?H"
    by linarith
  finally have rhs: "\<lfloor>y + 1 / 2 + halfUlp y\<rfloor> = (\<lfloor>?z + 1 / 2\<rfloor> + ?H) div ?N" .
  from roundHalfEven_cases[of ?z] show ?thesis
  proof
    assume "?r = \<lfloor>?z + 1 / 2\<rfloor>"
    then show ?thesis using lhs rhs by simp
  next
    assume c: "?r + 1 = \<lfloor>?z + 1 / 2\<rfloor> \<and> even ?r"
    then have "even (?r + ?H)" using evenH by simp
    from even_div_succ[OF this evenN Npos]
    have d: "(?r + ?H + 1) div ?N = (?r + ?H) div ?N" .
    have "\<lfloor>?z + 1 / 2\<rfloor> + ?H = ?r + ?H + 1" using c by linarith
    then have "(\<lfloor>?z + 1 / 2\<rfloor> + ?H) div ?N = (?r + ?H) div ?N"
      by (simp only: d)
    then show ?thesis by (simp only: lhs rhs)
  qed
qed

lemma Math_round_fl_step:
  assumes "1 \<le> y" and "y + 1 \<le> y'" and "y' < 2 ^ 51"
  shows "Math_round (fl y) < Math_round (fl y')"
proof -
  have y': "1 \<le> y'" using assms(1,2) by simp
  have k': "ilog2 y' \<le> 50" using ilog2_less[OF y' assms(3)] by simp
  have "ilog2 y \<le> ilog2 y'" using ilog2_mono[OF assms(1)] assms(2) by simp
  then have k: "ilog2 y \<le> 50" using k' by simp
  have "halfUlp y \<le> halfUlp y'"
    using halfUlp_mono[OF assms(1), of y'] assms(2) k' by simp
  then have "y + 1 / 2 + halfUlp y + 1 \<le> y' + 1 / 2 + halfUlp y'"
    using assms(2) by simp
  then have "\<lfloor>y + 1 / 2 + halfUlp y + 1\<rfloor> \<le> \<lfloor>y' + 1 / 2 + halfUlp y'\<rfloor>"
    by (rule floor_mono)
  moreover have "\<lfloor>y + 1 / 2 + halfUlp y + 1\<rfloor> = \<lfloor>y + 1 / 2 + halfUlp y\<rfloor> + 1"
    by linarith
  ultimately show ?thesis
    unfolding Math_round_fl[OF assms(1) k] Math_round_fl[OF y' k'] by linarith
qed

text \<open>Whole numbers below \<open>2^53\<close> are binary64 values.\<close>

lemma roundHalfEven_of_int: "roundHalfEven (of_int k) = k"
  by (simp add: roundHalfEven_def)

lemma fl_of_nat:
  assumes "1 \<le> i" and "i < 2 ^ 53"
  shows "fl (of_nat i) = of_nat i"
proof -
  let ?y = "of_nat i :: rat"
  let ?p = "nat (52 - ilog2 ?y)"
  have y1: "1 \<le> ?y" using assms(1) by simp
  have "?y < of_nat (2 ^ 53)" using assms(2) by (simp only: of_nat_less_iff)
  then have "?y < 2 ^ 53" by simp
  then have k: "ilog2 ?y \<le> 52" using ilog2_less[OF y1, of 53] by simp
  have "?y * 2 ^ ?p = of_int (int i * 2 ^ ?p)" by simp
  then have "roundHalfEven (?y * 2 ^ ?p) = int i * 2 ^ ?p"
    by (simp only: roundHalfEven_of_int)
  then have "fl ?y = of_int (int i * 2 ^ ?p) / 2 ^ ?p"
    by (simp only: fl_scaled[OF y1 k])
  also have "\<dots> = ?y" by simp
  finally show ?thesis .
qed


section \<open>Time-interval sampling\<close>

lemma timeLoop_length: "length (timeLoop s t cs) \<le> length cs"
  by (induction cs arbitrary: t) (auto simp: Let_def le_SucI)

lemma timeSample_noop: "length xs \<le> M \<Longrightarrow> timeSample M xs = xs"
  by (simp add: timeSample_def)

lemma timeSample_size_eq:
  "M < length xs \<Longrightarrow>
   length (timeSample M xs) =
     2 + length (timeLoop (sampleTimeStep M xs) (timestamp (hd xs)) (butlast (tl xs)))"
  by (simp add: timeSample_def Let_def)

lemma timeSample_size_bounds:
  assumes "M < length xs" and "2 \<le> length xs"
  shows "2 \<le> length (timeSample M xs) \<and> length (timeSample M xs) \<le> length xs"
proof -
  let ?loop = "timeLoop (sampleTimeStep M xs) (timestamp (hd xs)) (butlast (tl xs))"
  have "length ?loop \<le> length (butlast (tl xs))" by (rule timeLoop_length)
  then have "length ?loop \<le> length xs - 2" by simp
  then show ?thesis using timeSample_size_eq[OF assms(1)] assms(2) by arith
qed

text \<open>
  The loop decides on each fix from the fix it pushed last: running it over a slice and
  one more fix pushes that fix exactly when its time has reached the rounded sum of
  \<open>currentTime\<close>, as the slice left it, and the step.
\<close>

lemma currentTimeAfter_Nil: "currentTimeAfter s t [] = t"
  by (simp add: currentTimeAfter_def)

lemma currentTimeAfter_Cons:
  "currentTimeAfter s t (c # cs) =
     (if of_int (timestamp c) \<ge> fl (of_int t + s)
      then currentTimeAfter s (timestamp c) cs
      else currentTimeAfter s t cs)"
  by (simp add: currentTimeAfter_def Let_def split: list.splits)

lemma timeLoop_append:
  "timeLoop s t (pre @ post) = timeLoop s t pre @ timeLoop s (currentTimeAfter s t pre) post"
  by (induction pre arbitrary: t)
     (simp_all add: currentTimeAfter_Nil currentTimeAfter_Cons Let_def)

lemma timeLoop_snoc:
  "timeLoop s t (pre @ [x]) =
     timeLoop s t pre
     @ (if of_int (timestamp x) \<ge> fl (of_int (currentTimeAfter s t pre) + s) then [x] else [])"
  by (simp add: timeLoop_append Let_def)

lemma timeLoop_range:
  assumes "a \<le> b" and "b \<le> length xs"
  shows "timeLoop s t (take (b - a) (drop a xs)) =
     map ((!) xs)
       (filter (\<lambda>i. of_int (timestamp (xs ! i))
                       \<ge> fl (of_int (currentTimeAfter s t (take (i - a) (drop a xs))) + s))
          [a..<b])"
  using assms
proof (induction b)
  case 0
  then show ?case by simp
next
  case (Suc b)
  show ?case
  proof (cases "a = Suc b")
    case True
    then show ?thesis by simp
  next
    case False
    then have ab: "a \<le> b" and b: "b < length xs" using Suc.prems by simp_all
    have "b - a < length (drop a xs)" using ab b by simp
    then have "take (Suc (b - a)) (drop a xs) = take (b - a) (drop a xs) @ [drop a xs ! (b - a)]"
      by (rule take_Suc_conv_app_nth)
    moreover have "drop a xs ! (b - a) = xs ! b" using ab b by simp
    moreover have "Suc b - a = Suc (b - a)" using ab by simp
    ultimately have split: "take (Suc b - a) (drop a xs) = take (b - a) (drop a xs) @ [xs ! b]"
      by simp
    have IH: "timeLoop s t (take (b - a) (drop a xs)) =
       map ((!) xs)
         (filter (\<lambda>i. of_int (timestamp (xs ! i))
                         \<ge> fl (of_int (currentTimeAfter s t (take (i - a) (drop a xs))) + s))
            [a..<b])"
      using Suc.IH ab b by simp
    show ?thesis
      unfolding split timeLoop_snoc IH using ab by simp
  qed
qed

lemma filter_less_upt:
  assumes "i \<le> b"
  shows "filter (\<lambda>k. k < i) (filter P [a..<b]) = filter P [a..<i]"
proof -
  have "filter (\<lambda>k. k < i) [a..<b] = [a..<i]"
    using assms
  proof (induction b)
    case 0
    then show ?case by simp
  next
    case (Suc b)
    show ?case
    proof (cases "i = Suc b")
      case True
      then show ?thesis by (auto simp: filter_id_conv)
    next
      case False
      then have "i \<le> b" using Suc.prems by simp
      then show ?thesis using Suc.IH by simp
    qed
  qed
  moreover have "filter (\<lambda>k. k < i) (filter P [a..<b]) = filter P (filter (\<lambda>k. k < i) [a..<b])"
    by (simp add: conj_commute)
  ultimately show ?thesis by simp
qed

lemma timeSample_indices:
  assumes "M < length xs" and "2 \<le> length xs"
  defines "K \<equiv> filter (\<lambda>i. of_int (timestamp (xs ! i))
                    \<ge> fl (of_int (currentTimeAfter (sampleTimeStep M xs) (timestamp (hd xs))
                                      (take (i - 1) (drop 1 xs)))
                          + sampleTimeStep M xs))
                 [1..<length xs - 1]"
  shows "timeSample M xs = map ((!) xs) ([0] @ K @ [length xs - 1])"
    and "K = filter (\<lambda>i. of_int (timestamp (xs ! i))
                    \<ge> fl (of_int (timestamp (xs ! last (0 # filter (\<lambda>k. k < i) K)))
                          + sampleTimeStep M xs))
                 [1..<length xs - 1]"
proof -
  let ?s = "sampleTimeStep M xs"
  let ?t = "timestamp (hd xs)"
  let ?P = "\<lambda>i. of_int (timestamp (xs ! i))
                 \<ge> fl (of_int (currentTimeAfter ?s ?t (take (i - 1) (drop 1 xs))) + ?s)"
  have ne: "xs \<noteq> []" using assms(2) by auto
  have mid: "butlast (tl xs) = take (length xs - 1 - 1) (drop 1 xs)"
    by (simp add: butlast_conv_take drop_Suc)
  have loop: "timeLoop ?s ?t (butlast (tl xs)) = map ((!) xs) K"
    unfolding mid K_def using assms(2) by (intro timeLoop_range) simp_all
  have "timeSample M xs = [hd xs] @ map ((!) xs) K @ [last xs]"
    using assms(1) by (simp add: timeSample_def Let_def loop)
  then show "timeSample M xs = map ((!) xs) ([0] @ K @ [length xs - 1])"
    using ne by (simp add: hd_conv_nth last_conv_nth)
  have cur: "currentTimeAfter ?s ?t (take (i - 1) (drop 1 xs))
             = timestamp (xs ! last (0 # filter (\<lambda>k. k < i) K))"
    if "i \<in> set [1..<length xs - 1]" for i
  proof -
    have i: "1 \<le> i" "i \<le> length xs - 1" "i \<le> length xs" using that by auto
    define F where "F = filter ?P [1..<i]"
    have Fk: "filter (\<lambda>k. k < i) K = F"
      unfolding K_def F_def by (rule filter_less_upt[OF i(2)])
    have run: "timeLoop ?s ?t (take (i - 1) (drop 1 xs)) = map ((!) xs) F"
      unfolding F_def by (rule timeLoop_range[OF i(1) i(3)])
    have "currentTimeAfter ?s ?t (take (i - 1) (drop 1 xs))
          = (case map ((!) xs) F of [] \<Rightarrow> ?t | kept \<Rightarrow> timestamp (last kept))"
      by (simp only: currentTimeAfter_def run)
    also have "\<dots> = timestamp (xs ! last (0 # F))"
    proof (cases F)
      case Nil
      then show ?thesis using ne by (simp add: hd_conv_nth)
    next
      case (Cons k ks)
      then have "map ((!) xs) F \<noteq> []" by simp
      then have "(case map ((!) xs) F of [] \<Rightarrow> ?t | kept \<Rightarrow> timestamp (last kept))
                 = timestamp (last (map ((!) xs) F))"
        by (cases "map ((!) xs) F") simp_all
      also have "\<dots> = timestamp (xs ! last F)" using Cons by (simp add: last_map)
      finally show ?thesis using Cons by simp
    qed
    finally show ?thesis by (simp only: Fk)
  qed
  show "K = filter (\<lambda>i. of_int (timestamp (xs ! i))
                    \<ge> fl (of_int (timestamp (xs ! last (0 # filter (\<lambda>k. k < i) K))) + ?s))
                 [1..<length xs - 1]"
    by (subst K_def, rule filter_cong[OF refl]) (simp only: cur)
qed

text \<open>
  C4 (as the code has it). For a sequence of length \<open>len \<ge> 2\<close> and a target \<open>M \<ge> 2\<close>,
  time-interval sampling returns the sequence unchanged when \<open>len \<le> M\<close>, so its length is
  then \<open>min len M\<close>. When \<open>len > M\<close> it returns the fixes at the indices \<open>0\<close>, \<open>K\<close> and
  \<open>len - 1\<close>, where an intermediate index \<open>i\<close> is in \<open>K\<close> exactly when the time of fix \<open>i\<close>
  has reached the binary64 sum of the time of the fix kept last before \<open>i\<close> and the time
  step; the output then has at least 2 and at most \<open>len\<close> fixes.
\<close>

theorem timeSample_length:
  assumes "2 \<le> length xs" and "2 \<le> M"
  shows "(length xs \<le> M \<longrightarrow> timeSample M xs = xs \<and> length (timeSample M xs) = min (length xs) M)
       \<and> (M < length xs \<longrightarrow>
            (\<exists>K. timeSample M xs = map ((!) xs) ([0] @ K @ [length xs - 1])
                \<and> K = filter (\<lambda>i. of_int (timestamp (xs ! i))
                                 \<ge> fl (of_int (timestamp
                                                 (xs ! last (0 # filter (\<lambda>k. k < i) K)))
                                       + sampleTimeStep M xs))
                          [1..<length xs - 1])
            \<and> 2 \<le> length (timeSample M xs) \<and> length (timeSample M xs) \<le> length xs)"
proof (intro conjI impI)
  assume "length xs \<le> M"
  then show "timeSample M xs = xs" by (rule timeSample_noop)
  then show "length (timeSample M xs) = min (length xs) M"
    using \<open>length xs \<le> M\<close> by simp
next
  assume M: "M < length xs"
  from timeSample_indices[OF M assms(1)]
  show "\<exists>K. timeSample M xs = map ((!) xs) ([0] @ K @ [length xs - 1])
          \<and> K = filter (\<lambda>i. of_int (timestamp (xs ! i))
                           \<ge> fl (of_int (timestamp (xs ! last (0 # filter (\<lambda>k. k < i) K)))
                                 + sampleTimeStep M xs))
                    [1..<length xs - 1]"
    by blast
  from timeSample_size_bounds[OF M assms(1)]
  show "2 \<le> length (timeSample M xs)" and "length (timeSample M xs) \<le> length xs"
    by simp_all
qed

text \<open>
  When no intermediate fix reaches the rounded threshold, only the two ends remain.
\<close>

lemma timeLoop_none:
  assumes "\<forall>c\<in>set cs. of_int (timestamp c) < fl (of_int t + s)"
  shows "timeLoop s t cs = []"
  using assms by (induction cs) simp_all

lemma timeSample_ends:
  assumes "M < length xs"
    and "\<forall>c\<in>set (butlast (tl xs)).
           of_int (timestamp c) < fl (of_int (timestamp (hd xs)) + sampleTimeStep M xs)"
  shows "timeSample M xs = [hd xs, last xs]"
  using assms(1) timeLoop_none[OF assms(2)] by (simp add: timeSample_def Let_def)

text \<open>
  The sampler run on concrete sequences. Of five fixes one second apart, a target of 3
  keeps the first, the middle and the last one. Seven fixes one millisecond apart from
  \<open>2^51\<close> ms on are all kept by a target of 6: the step is the binary64 value of \<open>6/5\<close>,
  and the sum of \<open>currentTime\<close> and the step rounds down to \<open>currentTime + 1\<close>, which the
  next fix reaches.
\<close>

lemma timeSample_five: "timeSample 3 fiveFixes = [fixAt 0, fixAt 2000, fixAt 4000]"
  by code_simp

lemma timeSample_far:
  "length farTimes = 7 \<and> timeSample 6 farTimes = farTimes
   \<and> fl (2 ^ 51 + sampleTimeStep 6 farTimes) = 2 ^ 51 + 1"
  by code_simp

theorem timeSample_length_witness:
  "timeSample 2 twoFixes = twoFixes \<and> length (timeSample 2 twoFixes) = min (length twoFixes) 2
   \<and> timeSample 3 fiveFixes = [fixAt 0, fixAt 2000, fixAt 4000]
   \<and> 2 \<le> length (timeSample 3 fiveFixes)
   \<and> length (timeSample 3 fiveFixes) \<le> length fiveFixes
   \<and> (\<exists>K. timeSample 3 fiveFixes = map ((!) fiveFixes) ([0] @ K @ [length fiveFixes - 1])
         \<and> K = filter (\<lambda>i. of_int (timestamp (fiveFixes ! i))
                          \<ge> fl (of_int (timestamp
                                          (fiveFixes ! last (0 # filter (\<lambda>k. k < i) K)))
                                + sampleTimeStep 3 fiveFixes))
                   [1..<length fiveFixes - 1])"
proof -
  have a: "2 \<le> length twoFixes" by (simp add: twoFixes_def)
  have b: "2 \<le> length fiveFixes" by (simp add: fiveFixes_def)
  have c: "length twoFixes \<le> 2" by (simp add: twoFixes_def)
  have d: "3 < length fiveFixes" by (simp add: fiveFixes_def)
  have e: "(2::nat) \<le> 2" and f: "(2::nat) \<le> 3" by simp_all
  note l = timeSample_five
  have small: "timeSample 2 twoFixes = twoFixes
               \<and> length (timeSample 2 twoFixes) = min (length twoFixes) 2"
    using conjunct1[OF timeSample_length[OF a e]] c by (rule mp)
  have large: "(\<exists>K. timeSample 3 fiveFixes
                      = map ((!) fiveFixes) ([0] @ K @ [length fiveFixes - 1])
         \<and> K = filter (\<lambda>i. of_int (timestamp (fiveFixes ! i))
                          \<ge> fl (of_int (timestamp
                                          (fiveFixes ! last (0 # filter (\<lambda>k. k < i) K)))
                                + sampleTimeStep 3 fiveFixes))
                   [1..<length fiveFixes - 1])
       \<and> 2 \<le> length (timeSample 3 fiveFixes)
       \<and> length (timeSample 3 fiveFixes) \<le> length fiveFixes"
    using conjunct2[OF timeSample_length[OF b f]] d by (rule mp)
  from small have s1: "timeSample 2 twoFixes = twoFixes" by (rule conjunct1)
  from small have s2: "length (timeSample 2 twoFixes) = min (length twoFixes) 2"
    by (rule conjunct2)
  from large have l1: "\<exists>K. timeSample 3 fiveFixes
                      = map ((!) fiveFixes) ([0] @ K @ [length fiveFixes - 1])
         \<and> K = filter (\<lambda>i. of_int (timestamp (fiveFixes ! i))
                          \<ge> fl (of_int (timestamp
                                          (fiveFixes ! last (0 # filter (\<lambda>k. k < i) K)))
                                + sampleTimeStep 3 fiveFixes))
                   [1..<length fiveFixes - 1]"
    by (rule conjunct1)
  from large have l2: "2 \<le> length (timeSample 3 fiveFixes)"
    by (rule conjunct1[OF conjunct2])
  from large have l3: "length (timeSample 3 fiveFixes) \<le> length fiveFixes"
    by (rule conjunct2[OF conjunct2])
  show ?thesis
    by (intro conjI) (rule s1 s2 l l2 l3 l1)+
qed

text \<open>
  C4 (as stated) fails. 101 fixes that share one timestamp are in normalized order; the
  time span and the time step are 0, every fix passes the test, and the handler's sampler
  (\<open>M = 100\<close>) returns all 101 of them, not \<open>min 101 100 = 100\<close>.
\<close>

theorem timeSample_length_counterexample:
  "sortCoordinates equalTimes = equalTimes
   \<and> length equalTimes = 101
   \<and> length (timeSample maxCoordinates equalTimes) = 101
   \<and> length (timeSample maxCoordinates equalTimes) \<noteq> min (length equalTimes) maxCoordinates"
  by code_simp

text \<open>
  The output can also be shorter than the target: 100 fixes at time 0 followed by one at
  time 990 leave only the first and the last (the step is 10, and no intermediate fix
  reaches time 10).
\<close>

lemma timeSample_clustered_ends:
  "timeSample maxCoordinates clusteredTimes = [fixAt 0, fixAt 990]"
proof -
  have len: "maxCoordinates < length clusteredTimes"
    by (simp add: maxCoordinates_def clusteredTimes_def)
  have v: "fl (of_int (timestamp (hd clusteredTimes))
               + sampleTimeStep maxCoordinates clusteredTimes) = 10"
    by code_simp
  have z: "\<forall>c\<in>set (butlast (tl clusteredTimes)). (of_int (timestamp c) :: rat) < 10"
    by code_simp
  have h: "hd clusteredTimes = fixAt 0" by code_simp
  have l: "last clusteredTimes = fixAt 990" by code_simp
  have "timeSample maxCoordinates clusteredTimes = [hd clusteredTimes, last clusteredTimes]"
    by (rule timeSample_ends[OF len], unfold v, rule z)
  then show ?thesis by (simp only: h l)
qed

lemma timeSample_clustered:
  "sortCoordinates clusteredTimes = clusteredTimes
   \<and> length (timeSample maxCoordinates clusteredTimes) = 2"
proof -
  have "sortCoordinates clusteredTimes = clusteredTimes" by code_simp
  then show ?thesis by (simp add: timeSample_clustered_ends)
qed

text \<open>
  C5. For a sequence of length \<open>len \<ge> 2\<close> and a target \<open>M \<ge> 2\<close>, the output of
  time-interval sampling is not empty, starts with the first fix of the input and ends
  with its last fix.
\<close>

theorem timeSample_first_last:
  assumes "2 \<le> length xs" and "2 \<le> M"
  shows "timeSample M xs \<noteq> [] \<and> hd (timeSample M xs) = hd xs \<and> last (timeSample M xs) = last xs"
proof (cases "M < length xs")
  case True
  then show ?thesis by (simp add: timeSample_def Let_def)
next
  case False
  then have "timeSample M xs = xs" by (simp add: timeSample_noop)
  moreover have "xs \<noteq> []" using assms(1) by auto
  ultimately show ?thesis by simp
qed

theorem timeSample_first_last_witness:
  "timeSample 100 clusteredTimes \<noteq> []
   \<and> hd (timeSample 100 clusteredTimes) = fixAt 0
   \<and> last (timeSample 100 clusteredTimes) = fixAt 990"
proof -
  have a: "2 \<le> length clusteredTimes" by (simp add: clusteredTimes_def)
  have b: "(2::nat) \<le> 100" by simp
  have h: "hd clusteredTimes = fixAt 0" by code_simp
  have l: "last clusteredTimes = fixAt 990" by code_simp
  show ?thesis using timeSample_first_last[OF a b] h l by simp
qed


section \<open>Index-stride sampling\<close>

lemma quotient_bounds:
  assumes "M < len" and "2 \<le> M" and "len \<le> 2 ^ 32"
  shows "1 + 1 / 2 ^ 32 \<le> (of_nat (len - 1) / (of_nat M - 1) :: rat)"
    and "(of_nat (len - 1) / (of_nat M - 1) :: rat) \<le> of_nat (len - 1)"
    and "(of_nat (len - 1) / (of_nat M - 1) :: rat) * (of_nat M - 1) = of_nat (len - 1)"
    and "(of_nat (len - 1) :: rat) \<le> 2 ^ 32"
proof -
  define n :: rat where "n = of_nat (len - 1)"
  define m :: rat where "m = of_nat M - 1"
  have m1: "1 \<le> m" using assms(2) by (simp add: m_def)
  have mn: "m + 1 \<le> n" using assms(1,2) by (simp add: m_def n_def of_nat_diff)
  have "M \<le> 2 ^ 32" using assms(1,3) by linarith
  then have "of_nat M \<le> (of_nat (2 ^ 32) :: rat)" by (simp only: of_nat_le_iff)
  then have m32: "m \<le> 2 ^ 32" by (simp add: m_def)
  have "len - 1 \<le> 2 ^ 32" using assms(3) by linarith
  then have "of_nat (len - 1) \<le> (of_nat (2 ^ 32) :: rat)" by (simp only: of_nat_le_iff)
  then have n32: "n \<le> 2 ^ 32" by (simp add: n_def)
  have n0: "0 \<le> n" using m1 mn by linarith
  have "1 / 2 ^ 32 \<le> 1 / m" using m1 m32 by (intro frac_le) simp_all
  moreover have "1 + 1 / m = (m + 1) / m" using m1 by (simp add: field_simps)
  moreover have "(m + 1) / m \<le> n / m" using m1 mn by (intro divide_right_mono) simp_all
  ultimately have a: "1 + 1 / 2 ^ 32 \<le> n / m" by linarith
  have "n * 1 \<le> n * m" using m1 n0 by (intro mult_left_mono)
  then have b: "n / m \<le> n" using m1 by (simp add: pos_divide_le_eq)
  have c: "n / m * m = n" using m1 by simp
  show "1 + 1 / 2 ^ 32 \<le> (of_nat (len - 1) / (of_nat M - 1) :: rat)"
    using a by (simp only: n_def m_def)
  show "(of_nat (len - 1) / (of_nat M - 1) :: rat) \<le> of_nat (len - 1)"
    using b by (simp only: n_def m_def)
  show "(of_nat (len - 1) / (of_nat M - 1) :: rat) * (of_nat M - 1) = of_nat (len - 1)"
    using c by (simp only: n_def m_def)
  show "(of_nat (len - 1) :: rat) \<le> 2 ^ 32"
    using n32 by (simp only: n_def)
qed

lemma evenStep_bounds:
  assumes "M < len" and "2 \<le> M" and "len \<le> 2 ^ 32"
  shows "1 \<le> evenStep len M"
    and "evenStep len M \<le> of_nat (len - 1) / (of_nat M - 1)
                              + (of_nat (len - 1) / (of_nat M - 1)) / 2 ^ 53"
proof -
  define q :: rat where "q = of_nat (len - 1) / (of_nat M - 1)"
  note qb = quotient_bounds[OF assms, folded q_def]
  have tiny: "(0::rat) \<le> 1 / 2 ^ 32" by simp
  have q1: "1 \<le> q" using qb(1) tiny by linarith
  have "(2::rat) ^ 32 < 2 ^ 33" by simp
  then have "q < 2 ^ 33" using qb(2,4) by linarith
  then have k: "ilog2 q \<le> 52" using ilog2_less[OF q1, of 33] by simp
  have err: "\<bar>fl q - q\<bar> \<le> q / 2 ^ 53"
    using fl_error[OF q1 k] halfUlp_relative[OF q1 k] by linarith
  have "(1 + 1 / 2 ^ 32) * (1 - 1 / 2 ^ 53) \<le> q * (1 - 1 / 2 ^ 53)"
    using qb(1) by (intro mult_right_mono) simp_all
  moreover have "(1::rat) \<le> (1 + 1 / 2 ^ 32) * (1 - 1 / 2 ^ 53)" by simp
  moreover have "q * (1 - 1 / 2 ^ 53) = q - q / 2 ^ 53" by (simp add: algebra_simps)
  ultimately have "1 \<le> q - q / 2 ^ 53" by linarith
  then have "1 \<le> fl q" and "fl q \<le> q + q / 2 ^ 53" using err by linarith+
  then show "1 \<le> evenStep len M"
    and "evenStep len M \<le> of_nat (len - 1) / (of_nat M - 1)
                              + (of_nat (len - 1) / (of_nat M - 1)) / 2 ^ 53"
    by (simp_all only: evenStep_def q_def)
qed

lemma product_bounds:
  assumes "M < len" and "2 \<le> M" and "len \<le> 2 ^ 32" and "1 \<le> i" and "i \<le> M - 2"
  shows "1 \<le> of_nat i * evenStep len M"
    and "of_nat i * evenStep len M
           \<le> of_nat (len - 1) - of_nat (len - 1) / (of_nat M - 1) + 1 / 2 ^ 21"
proof -
  define n :: rat where "n = of_nat (len - 1)"
  define m :: rat where "m = of_nat M - 1"
  define q :: rat where "q = n / m"
  define s where "s = evenStep len M"
  note qb = quotient_bounds[OF assms(1,2,3), folded n_def m_def, folded q_def]
  note sb = evenStep_bounds[OF assms(1,2,3), folded n_def m_def, folded q_def s_def]
  have i1: "(1::rat) \<le> of_nat i" using assms(4) by simp
  have "1 * 1 \<le> of_nat i * s" using i1 sb(1) by (intro mult_mono) simp_all
  then have A: "1 \<le> of_nat i * s" by simp
  have tiny: "(0::rat) \<le> 1 / 2 ^ 32" by simp
  have q0: "0 \<le> q" using qb(1) tiny by linarith
  have s0: "0 \<le> s" using sb(1) by simp
  have m1: "1 \<le> m" using assms(2) by (simp add: m_def)
  have "(of_nat i :: rat) \<le> of_nat (M - 2)" using assms(5) by (simp only: of_nat_le_iff)
  also have "(of_nat (M - 2) :: rat) = m - 1" using assms(2) by (simp add: of_nat_diff m_def)
  finally have im: "(of_nat i :: rat) \<le> m - 1" .
  have "of_nat i * s \<le> (m - 1) * s" using im s0 by (rule mult_right_mono)
  also have "\<dots> \<le> (m - 1) * (q + q / 2 ^ 53)"
    using sb(2) m1 by (intro mult_left_mono) simp_all
  also have "\<dots> = (q * m - q) + (q * m - q) / 2 ^ 53"
  proof -
    define c :: rat where "c = 2 ^ 53"
    have "(m - 1) * (q + q / c) = (q * m - q) + (q * m - q) / c"
      by (simp add: algebra_simps diff_divide_distrib)
    then show ?thesis by (simp only: c_def)
  qed
  also have "\<dots> = (n - q) + (n - q) / 2 ^ 53" by (simp only: qb(3))
  also have "\<dots> \<le> (n - q) + 2 ^ 32 / 2 ^ 53"
  proof -
    have "n - q \<le> 2 ^ 32" using qb(4) q0 by linarith
    then have "(n - q) / 2 ^ 53 \<le> 2 ^ 32 / 2 ^ 53" by (intro divide_right_mono) simp_all
    then show ?thesis by linarith
  qed
  also have "\<dots> = n - q + 1 / 2 ^ 21" by simp
  finally have B: "of_nat i * s \<le> n - q + 1 / 2 ^ 21" .
  show "1 \<le> of_nat i * evenStep len M" using A by (simp only: s_def)
  show "of_nat i * evenStep len M
           \<le> of_nat (len - 1) - of_nat (len - 1) / (of_nat M - 1) + 1 / 2 ^ 21"
    using B by (simp only: s_def q_def n_def m_def)
qed

lemma product_small:
  assumes "M < len" and "2 \<le> M" and "len \<le> 2 ^ 32" and "1 \<le> i" and "i \<le> M - 2"
  shows "of_nat i * evenStep len M < 2 ^ 51"
proof -
  note qb = quotient_bounds[OF assms(1,2,3)]
  have tiny: "(0::rat) \<le> 1 / 2 ^ 32" by simp
  have "of_nat i * evenStep len M \<le> 2 ^ 32 + 1 / 2 ^ 21"
    using product_bounds(2)[OF assms] qb(1,4) tiny by linarith
  moreover have "(2::rat) ^ 32 + 1 / 2 ^ 21 < 2 ^ 51" by simp
  ultimately show ?thesis by linarith
qed

lemma evenIndex_int:
  assumes "M < len" and "2 \<le> M" and "len \<le> 2 ^ 32" and "1 \<le> i" and "i \<le> M - 2"
  shows "int (evenIndex len M i) = Math_round (fl (of_nat i * evenStep len M))"
    and "1 \<le> Math_round (fl (of_nat i * evenStep len M))"
proof -
  let ?x = "of_nat i * evenStep len M"
  have x1: "1 \<le> ?x" by (rule product_bounds(1)[OF assms])
  have k: "ilog2 ?x \<le> 50" using ilog2_less[OF x1 product_small[OF assms]] by simp
  have "0 \<le> halfUlp ?x" by (simp add: halfUlp_def)
  then have "(1 + 1 / 2 :: rat) \<le> ?x + 1 / 2 + halfUlp ?x" using x1 by simp
  then have "\<lfloor>(1 + 1 / 2 :: rat)\<rfloor> \<le> \<lfloor>?x + 1 / 2 + halfUlp ?x\<rfloor>" by (rule floor_mono)
  moreover have "\<lfloor>(1 + 1 / 2 :: rat)\<rfloor> = 1" by linarith
  ultimately show "1 \<le> Math_round (fl ?x)" by (simp only: Math_round_fl[OF x1 k])
  then show "int (evenIndex len M i) = Math_round (fl ?x)" by (simp add: evenIndex_def)
qed

lemma evenIndex_Suc:
  assumes "M < len" and "2 \<le> M" and "len \<le> 2 ^ 32" and "1 \<le> i" and "Suc i \<le> M - 2"
  shows "evenIndex len M i < evenIndex len M (Suc i)"
proof -
  let ?s = "evenStep len M"
  have i: "i \<le> M - 2" using assms(5) by simp
  have "of_nat (Suc i) * ?s = of_nat i * ?s + ?s" by (simp add: algebra_simps)
  then have "of_nat i * ?s + 1 \<le> of_nat (Suc i) * ?s"
    using evenStep_bounds(1)[OF assms(1,2,3)] by simp
  have s1: "1 \<le> Suc i" by simp
  from this Math_round_fl_step[OF product_bounds(1)[OF assms(1,2,3,4) i] _
         product_small[OF assms(1,2,3) s1 assms(5)]]
  have "Math_round (fl (of_nat i * ?s)) < Math_round (fl (of_nat (Suc i) * ?s))"
    using \<open>of_nat i * ?s + 1 \<le> of_nat (Suc i) * ?s\<close> by blast
  then have "int (evenIndex len M i) < int (evenIndex len M (Suc i))"
    by (simp only: evenIndex_int(1)[OF assms(1,2,3,4) i]
                   evenIndex_int(1)[OF assms(1,2,3) s1 assms(5)])
  then show ?thesis by simp
qed

lemma evenIndex_strict_mono:
  assumes "M < len" and "2 \<le> M" and "len \<le> 2 ^ 32" and "1 \<le> i" and "i < j" and "j \<le> M - 2"
  shows "evenIndex len M i < evenIndex len M j"
  using assms(5,6)
proof (induction j)
  case 0
  then show ?case by simp
next
  case (Suc j)
  have step: "evenIndex len M j < evenIndex len M (Suc j)"
    using evenIndex_Suc[OF assms(1,2,3), of j] assms(4) Suc.prems by simp
  show ?case
  proof (cases "i = j")
    case True
    then show ?thesis using step by simp
  next
    case False
    then have "i < j" using Suc.prems by simp
    then have "evenIndex len M i < evenIndex len M j" using Suc.IH Suc.prems by simp
    then show ?thesis using step by simp
  qed
qed

lemma evenIndex_pos:
  assumes "M < len" and "2 \<le> M" and "len \<le> 2 ^ 32" and "1 \<le> i" and "i \<le> M - 2"
  shows "0 < evenIndex len M i"
  using evenIndex_int[OF assms] by linarith

lemma evenIndex_below_last:
  assumes "M < len" and "2 \<le> M" and "len \<le> 2 ^ 32" and "1 \<le> i" and "i \<le> M - 2"
  shows "evenIndex len M i < len - 1"
proof -
  let ?x = "of_nat i * evenStep len M"
  let ?q = "of_nat (len - 1) / (of_nat M - 1) :: rat"
  let ?n = "of_nat (len - 1) :: rat"
  note qb = quotient_bounds[OF assms(1,2,3)]
  note pb = product_bounds[OF assms]
  have x1: "1 \<le> ?x" by (rule pb(1))
  have small: "?x < 2 ^ 51" by (rule product_small[OF assms])
  have k: "ilog2 ?x \<le> 50" using ilog2_less[OF x1 small] by simp
  then have k52: "ilog2 ?x \<le> 52" by simp
  have "halfUlp ?x \<le> ?x / 2 ^ 53" by (rule halfUlp_relative[OF x1 k52])
  also have "\<dots> \<le> 2 ^ 51 / 2 ^ 53" using small by (simp add: divide_right_mono)
  finally have h: "halfUlp ?x \<le> 1 / 4" by simp
  have "?x + 1 / 2 + halfUlp ?x \<le> ?n - ?q + 1 / 2 ^ 21 + 1 / 2 + 1 / 4"
    using pb(2) h by linarith
  also have "\<dots> < ?n"
  proof -
    have "(1 / 2 ^ 21 + 1 / 2 + 1 / 4 :: rat) < 1 + 1 / 2 ^ 32" by simp
    then show ?thesis using qb(1) by linarith
  qed
  finally have "?x + 1 / 2 + halfUlp ?x < of_int (int (len - 1))" by simp
  then have "\<lfloor>?x + 1 / 2 + halfUlp ?x\<rfloor> < int (len - 1)" by (simp only: floor_less_iff)
  then have "int (evenIndex len M i) < int (len - 1)"
    by (simp only: evenIndex_int(1)[OF assms] Math_round_fl[OF x1 k])
  then show ?thesis by simp
qed

lemma sampleEvenly_noop: "length xs \<le> M \<Longrightarrow> sampleCoordinatesEvenly xs M = xs"
  by (simp add: sampleCoordinatesEvenly_def)

lemma sampleEvenly_length:
  assumes "2 \<le> M"
  shows "length (sampleCoordinatesEvenly xs M) = min (length xs) M"
proof (cases "length xs \<le> M")
  case True
  then show ?thesis by (simp add: sampleCoordinatesEvenly_def)
next
  case False
  have "length (sampleCoordinatesEvenly xs M) = 1 + (M - 1 - 1) + 1"
    using False by (simp add: sampleCoordinatesEvenly_def Let_def)
  then show ?thesis using False assms by arith
qed

lemma sampleEvenly_unfold:
  assumes "M < length xs"
  shows "sampleCoordinatesEvenly xs M
     = [xs ! 0] @ map (\<lambda>i. xs ! evenIndex (length xs) M i) [1..<M - 1]
       @ [xs ! (length xs - 1)]"
  using assms by (simp add: sampleCoordinatesEvenly_def evenIndex_def evenStep_def Let_def)

lemma nth_sampled:
  assumes "1 \<le> i" and "i \<le> M - 2"
  shows "([a] @ map f [1..<M - 1] @ [b]) ! i = f i"
proof -
  have "([a] @ map f [1..<M - 1] @ [b]) ! i = (map f [1..<M - 1] @ [b]) ! (i - 1)"
    using assms(1) by (simp add: nth_Cons')
  also have "\<dots> = map f [1..<M - 1] ! (i - 1)"
  proof -
    have "i - 1 < length (map f [1..<M - 1])" using assms by simp
    then show ?thesis by (simp only: nth_append if_True)
  qed
  also have "\<dots> = f i"
    using assms by simp
  finally show ?thesis .
qed

text \<open>
  Run on the list of the indices themselves, the sampler returns the indices it reads.
\<close>

lemma sampleEvenly_indices:
  assumes "M < len" and "2 \<le> M" and "len \<le> 2 ^ 32"
  shows "sampleCoordinatesEvenly [0..<len] M
     = [0] @ map (evenIndex len M) [1..<M - 1] @ [len - 1]"
proof -
  have mid: "map (\<lambda>i. [0..<len] ! evenIndex len M i) [1..<M - 1]
           = map (evenIndex len M) [1..<M - 1]"
  proof (rule map_cong[OF refl])
    fix i assume "i \<in> set [1..<M - 1]"
    then have i: "1 \<le> i" "i \<le> M - 2" by auto
    from evenIndex_below_last[OF assms i]
    show "[0..<len] ! evenIndex len M i = evenIndex len M i" by simp
  qed
  have "sampleCoordinatesEvenly [0..<len] M
        = [ [0..<len] ! 0] @ map (\<lambda>i. [0..<len] ! evenIndex len M i) [1..<M - 1]
          @ [ [0..<len] ! (len - 1)]"
    using sampleEvenly_unfold[of M "[0..<len]"] assms(1) by simp
  also have "\<dots> = [0] @ map (evenIndex len M) [1..<M - 1] @ [len - 1]"
    unfolding mid using assms(1) by simp
  finally show ?thesis .
qed

lemma sampleEvenly_natural:
  assumes "2 \<le> M" and "length xs \<le> 2 ^ 32"
  shows "sampleCoordinatesEvenly xs M
     = map ((!) xs) (sampleCoordinatesEvenly [0..<length xs] M)"
proof (cases "length xs \<le> M")
  case True
  then show ?thesis by (simp add: sampleCoordinatesEvenly_def map_nth)
next
  case False
  then have M: "M < length xs" by simp
  show ?thesis
    unfolding sampleEvenly_indices[OF M assms] sampleEvenly_unfold[OF M]
    by (simp add: comp_def)
qed

lemma sampleEvenly_indices_sorted:
  assumes "2 \<le> M" and "len \<le> 2 ^ 32"
  shows "sorted_wrt (<) (sampleCoordinatesEvenly [0..<len] M)"
proof (cases "len \<le> M")
  case True
  then show ?thesis by (simp add: sampleCoordinatesEvenly_def)
next
  case False
  then have M: "M < len" by simp
  have inner: "sorted_wrt (<) (map (evenIndex len M) [1..<M - 1])"
    unfolding sorted_wrt_map
  proof (rule sorted_wrt_mono_rel[of _ "(<)"])
    show "sorted_wrt (<) [1..<M - 1]" by simp
    fix i j assume "i \<in> set [1..<M - 1]" and "j \<in> set [1..<M - 1]" and "i < j"
    then have "1 \<le> i" and "j \<le> M - 2" by auto
    then show "evenIndex len M i < evenIndex len M j"
      using evenIndex_strict_mono[OF M assms] \<open>i < j\<close> by simp
  qed
  have low: "0 < evenIndex len M i" and high: "evenIndex len M i < len - 1"
    if "i \<in> set [1..<M - 1]" for i
  proof -
    have i: "1 \<le> i" "i \<le> M - 2" using that by auto
    show "0 < evenIndex len M i" by (rule evenIndex_pos[OF M assms i])
    show "evenIndex len M i < len - 1" by (rule evenIndex_below_last[OF M assms i])
  qed
  have ends: "0 < len - 1" using M assms(1) by simp
  show ?thesis
    unfolding sampleEvenly_indices[OF M assms]
    using inner low high ends by (auto simp: sorted_wrt_append)
qed

lemma sampleEvenly_indices_range:
  assumes "2 \<le> M" and "len \<le> 2 ^ 32"
  shows "set (sampleCoordinatesEvenly [0..<len] M) \<subseteq> {..<len}"
proof (cases "len \<le> M")
  case True
  then show ?thesis by (auto simp: sampleCoordinatesEvenly_def)
next
  case False
  then have M: "M < len" by simp
  have high: "evenIndex len M i < len" if "i \<in> set [1..<M - 1]" for i
  proof -
    have i: "1 \<le> i" "i \<le> M - 2" using that by auto
    from evenIndex_below_last[OF M assms i] show ?thesis by simp
  qed
  show ?thesis
    unfolding sampleEvenly_indices[OF M assms]
    using high M by auto
qed

text \<open>
  At the target (\<open>len = M\<close>) the step is 1 and slot \<open>i\<close> would read index \<open>i\<close>, so the
  index formula also describes the unchanged input.
\<close>

lemma upt_split_ends:
  assumes "2 \<le> M"
  shows "[0..<M] = [0] @ [1..<M - 1] @ [M - 1]"
proof (cases M)
  case 0
  then show ?thesis using assms by simp
next
  case (Suc m)
  have "0 < m" using assms Suc by simp
  have "[0..<Suc m] = [0..<m] @ [m]" by simp
  also have "[0..<m] = 0 # [Suc 0..<m]" using \<open>0 < m\<close> by (rule upt_conv_Cons)
  finally show ?thesis using Suc by simp
qed

lemma evenStep_same:
  assumes "2 \<le> M"
  shows "evenStep M M = 1"
proof -
  have "(of_nat (M - 1) :: rat) = of_nat M - 1" using assms by (simp add: of_nat_diff)
  moreover have "(of_nat M - 1 :: rat) \<noteq> 0" using assms by simp
  ultimately have q: "(of_nat (M - 1) / (of_nat M - 1) :: rat) = 1" by simp
  have "fl (of_nat 1) = of_nat 1" by (rule fl_of_nat) simp_all
  then have "fl 1 = 1" by simp
  then show ?thesis by (simp only: evenStep_def q)
qed

lemma evenIndex_same:
  assumes "2 \<le> M" and "M \<le> 2 ^ 32" and "1 \<le> i" and "i \<le> M - 2"
  shows "evenIndex M M i = i"
proof -
  have "(2::nat) ^ 32 < 2 ^ 53" by simp
  then have "i < 2 ^ 53" using assms by linarith
  then have f: "fl (of_nat i) = of_nat i" by (rule fl_of_nat[OF assms(3)])
  have r: "\<lfloor>(of_nat i :: rat) + 1 / 2\<rfloor> = int i" by linarith
  have "evenIndex M M i = nat (Math_round (fl (of_nat i * 1)))"
    by (simp only: evenIndex_def evenStep_same[OF assms(1)])
  also have "\<dots> = nat \<lfloor>(of_nat i :: rat) + 1 / 2\<rfloor>"
    by (simp only: mult_1_right f Math_round_def)
  also have "\<dots> = i" by (simp only: r nat_int)
  finally show ?thesis .
qed

lemma sampleEvenly_indices_le:
  assumes "M \<le> len" and "2 \<le> M" and "len \<le> 2 ^ 32"
  shows "sampleCoordinatesEvenly [0..<len] M
     = [0] @ map (evenIndex len M) [1..<M - 1] @ [len - 1]"
proof (cases "M < len")
  case True
  then show ?thesis by (rule sampleEvenly_indices[OF _ assms(2,3)])
next
  case False
  then have eq: "len = M" using assms(1) by simp
  have M32: "M \<le> 2 ^ 32" using assms(3) eq by simp
  have "map (evenIndex M M) [1..<M - 1] = map (\<lambda>i. i) [1..<M - 1]"
  proof (rule map_cong[OF refl])
    fix i assume "i \<in> set [1..<M - 1]"
    then have "1 \<le> i" and "i \<le> M - 2" by auto
    then show "evenIndex M M i = i" by (rule evenIndex_same[OF assms(2) M32])
  qed
  then have mid: "map (evenIndex M M) [1..<M - 1] = [1..<M - 1]" by simp
  have "sampleCoordinatesEvenly [0..<M] M = [0..<M]" by (simp add: sampleEvenly_noop)
  also have "\<dots> = [0] @ [1..<M - 1] @ [M - 1]" by (rule upt_split_ends[OF assms(2)])
  finally show ?thesis unfolding eq mid .
qed

text \<open>
  C6. For an array of length \<open>len \<ge> 2\<close> (an array holds at most \<open>2^32\<close> elements) and a
  target \<open>M \<ge> 2\<close>, index-stride sampling returns \<open>min len M\<close> elements. They are the
  elements at the source indices the sampler selects, \<open>sampleCoordinatesEvenly [0..<len] M\<close>;
  these indices are in range and strictly increasing; and from the target upwards
  (\<open>len \<ge> M\<close>)
  they are \<open>0\<close>, then \<^verbatim>\<open>Math.round(i * step)\<close> for \<open>i = 1 .. M - 2\<close> with the binary64
  quotient \<open>step\<close> of \<open>len - 1\<close> by \<open>M - 1\<close> and the binary64 product, then \<open>len - 1\<close>.
  (Below the target the sampler returns its input, every index from \<open>0\<close> to \<open>len - 1\<close>.)
\<close>

theorem sampleCoordinatesEvenly_stride:
  assumes "2 \<le> length xs" and "2 \<le> M" and "length xs \<le> 2 ^ 32"
  shows "length (sampleCoordinatesEvenly xs M) = min (length xs) M
       \<and> sampleCoordinatesEvenly xs M
           = map ((!) xs) (sampleCoordinatesEvenly [0..<length xs] M)
       \<and> set (sampleCoordinatesEvenly [0..<length xs] M) \<subseteq> {..<length xs}
       \<and> sorted_wrt (<) (sampleCoordinatesEvenly [0..<length xs] M)
       \<and> (M \<le> length xs \<longrightarrow>
            sampleCoordinatesEvenly [0..<length xs] M
              = [0]
                @ map (\<lambda>i. nat (Math_round
                                (fl (of_nat i * fl (of_nat (length xs - 1) / (of_nat M - 1))))))
                    [1..<M - 1]
                @ [length xs - 1])"
proof (intro conjI impI)
  show "length (sampleCoordinatesEvenly xs M) = min (length xs) M"
    by (rule sampleEvenly_length[OF assms(2)])
  show "sampleCoordinatesEvenly xs M = map ((!) xs) (sampleCoordinatesEvenly [0..<length xs] M)"
    by (rule sampleEvenly_natural[OF assms(2,3)])
  show "set (sampleCoordinatesEvenly [0..<length xs] M) \<subseteq> {..<length xs}"
    by (rule sampleEvenly_indices_range[OF assms(2,3)])
  show "sorted_wrt (<) (sampleCoordinatesEvenly [0..<length xs] M)"
    by (rule sampleEvenly_indices_sorted[OF assms(2,3)])
next
  assume M: "M \<le> length xs"
  have unfold: "evenIndex (length xs) M
      = (\<lambda>i. nat (Math_round (fl (of_nat i * fl (of_nat (length xs - 1) / (of_nat M - 1))))))"
    by (rule ext) (simp only: evenIndex_def evenStep_def)
  show "sampleCoordinatesEvenly [0..<length xs] M
      = [0]
        @ map (\<lambda>i. nat (Math_round
                        (fl (of_nat i * fl (of_nat (length xs - 1) / (of_nat M - 1))))))
            [1..<M - 1]
        @ [length xs - 1]"
    using sampleEvenly_indices_le[OF M assms(2,3)] by (simp only: unfold)
qed

text \<open>
  An array of 197 elements sampled to 25: slot 3 reads index 25 (the product is
  \<open>24.5\<close>, rounded up) and slot 15 reads index 122 (the binary64 product is just below
  \<open>122.5\<close>, which is the exact value of \<open>15 * 196 / 24\<close>).
\<close>

lemma evenIndex_197_25:
  "evenIndex 197 25 3 = 25 \<and> evenIndex 197 25 15 = 122
   \<and> fl (15 * fl (196 / 24)) < 245 / 2 \<and> (15 * (196 / 24) :: rat) = 245 / 2"
  by code_simp

theorem sampleCoordinatesEvenly_stride_witness:
  "2 \<le> length [0..<197::nat] \<and> (2::nat) \<le> 25 \<and> length [0..<197::nat] \<le> 2 ^ 32
   \<and> 25 \<le> length [0..<197::nat]
   \<and> length (sampleCoordinatesEvenly [0..<197::nat] 25) = 25
   \<and> sorted_wrt (<) (sampleCoordinatesEvenly [0..<197::nat] 25)
   \<and> sampleCoordinatesEvenly [0..<197::nat] 25 ! 3 = 25
   \<and> sampleCoordinatesEvenly [0..<197::nat] 25 ! 15 = 122
   \<and> sampleCoordinatesEvenly ''abcdefg'' 3 = ''adg''"
proof -
  have a: "2 \<le> length [0..<197::nat]" by simp
  have b: "(2::nat) \<le> 25" by simp
  have c: "length [0..<197::nat] \<le> 2 ^ 32" by simp
  have d: "25 \<le> length [0..<197::nat]" by simp
  note t = sampleCoordinatesEvenly_stride[OF a b c]
  from t have l: "length (sampleCoordinatesEvenly [0..<197::nat] 25) = min (length [0..<197::nat]) 25"
    by (rule conjunct1)
  from t have "sorted_wrt (<) (sampleCoordinatesEvenly [0..<length [0..<197::nat]] 25)"
    by (elim conjE)
  then have s: "sorted_wrt (<) (sampleCoordinatesEvenly [0..<197::nat] 25)" by simp
  from t d have "sampleCoordinatesEvenly [0..<length [0..<197::nat]] 25
      = [0]
        @ map (\<lambda>i. nat (Math_round
                        (fl (of_nat i * fl (of_nat (length [0..<197::nat] - 1) / (of_nat 25 - 1))))))
            [1..<25 - 1]
        @ [length [0..<197::nat] - 1]"
    by (elim conjE impE)
  then have f: "sampleCoordinatesEvenly [0..<197::nat] 25
      = [0] @ map (evenIndex 197 25) [1..<24] @ [196]"
    by (simp add: evenIndex_def evenStep_def cong: map_cong)
  have n3: "sampleCoordinatesEvenly [0..<197::nat] 25 ! 3 = evenIndex 197 25 3"
    unfolding f using nth_sampled[of 3 25 0 "evenIndex 197 25" 196] by simp
  have n15: "sampleCoordinatesEvenly [0..<197::nat] 25 ! 15 = evenIndex 197 25 15"
    unfolding f using nth_sampled[of 15 25 0 "evenIndex 197 25" 196] by simp
  have v: "sampleCoordinatesEvenly ''abcdefg'' 3 = ''adg''" by code_simp
  show ?thesis
    using a b c d l s n3 n15 v evenIndex_197_25 by simp
qed


section \<open>The server handler\<close>

lemma sortCoordinates_length: "length (sortCoordinates cs) = length cs"
  by (simp add: sortCoordinates_def)

lemma processCoordinates_noop:
  "length xs \<le> 100 \<Longrightarrow> processCoordinates xs = xs"
  by (simp add: processCoordinates_def maxCoordinates_def timeSample_noop)

lemma POST_accepted:
  assumes "\<not> tokenMissing token" and "2 \<le> length cs"
  shows "POST token matchingApi directionsApi (Body (Some cs)) =
     (let processedCoordinates = processCoordinates (sortCoordinates cs);
          call = matchingCall processedCoordinates
      in (case matchingApi call of
            Rejected \<Rightarrow> (failedToProcess, [call])
          | Responded ok parsed \<Rightarrow>
              (case mapMatchingResult ok parsed processedCoordinates (length cs) of
                 Some result \<Rightarrow> (RouteResponse result, [call])
               | None \<Rightarrow>
                   (fst (directionsStage directionsApi processedCoordinates (length cs)),
                    call # snd (directionsStage directionsApi processedCoordinates (length cs))))))"
  using assms
  by (simp add: POST_def Let_def case_prod_beta split: fetched.split option.split)

text \<open>
  C7. For a submitted sequence of length \<open>2 \<le> len \<le> 100\<close> both samplers leave the
  normalized sequence unchanged, and (the access token being configured, so that a
  request is sent at all) the first request the handler sends is the matching request
  built from the normalized sequence itself.
\<close>

theorem adaptive_sampler_noop:
  assumes "2 \<le> length cs" and "length cs \<le> 100"
  shows "processCoordinates (sortCoordinates cs) = sortCoordinates cs
       \<and> sampleCoordinatesEvenly (sortCoordinates cs) 100 = sortCoordinates cs
       \<and> (\<not> tokenMissing token \<longrightarrow>
            snd (POST token matchingApi directionsApi (Body (Some cs))) \<noteq> []
            \<and> hd (snd (POST token matchingApi directionsApi (Body (Some cs))))
                = MatchingCall (map lonLat (sortCoordinates cs))
                    (map (\<lambda>_. ''25'') (sortCoordinates cs)))"
proof (intro conjI impI)
  have len: "length (sortCoordinates cs) \<le> 100"
    using assms(2) by (simp add: sortCoordinates_length)
  show p: "processCoordinates (sortCoordinates cs) = sortCoordinates cs"
    by (rule processCoordinates_noop[OF len])
  show "sampleCoordinatesEvenly (sortCoordinates cs) 100 = sortCoordinates cs"
    by (rule sampleEvenly_noop[OF len])
  assume token: "\<not> tokenMissing token"
  have calls: "snd (POST token matchingApi directionsApi (Body (Some cs))) \<noteq> []
     \<and> hd (snd (POST token matchingApi directionsApi (Body (Some cs))))
         = matchingCall (sortCoordinates cs)"
    unfolding POST_accepted[OF token assms(1)] p Let_def
    by (simp split: fetched.split option.split)
  from calls show "snd (POST token matchingApi directionsApi (Body (Some cs))) \<noteq> []"
    by (rule conjunct1)
  from calls show "hd (snd (POST token matchingApi directionsApi (Body (Some cs))))
      = MatchingCall (map lonLat (sortCoordinates cs)) (map (\<lambda>_. ''25'') (sortCoordinates cs))"
    by (simp add: matchingCall_def)
qed

theorem adaptive_sampler_noop_witness:
  "processCoordinates (sortCoordinates twoFixes) = sortCoordinates twoFixes
   \<and> hd (snd (POST (Some ''token'') matchingDown directionsDown (Body (Some twoFixes))))
       = MatchingCall [(0, 0), (0, 0)] [''25'', ''25'']"
proof -
  have a: "2 \<le> length twoFixes" by (simp add: twoFixes_def)
  have b: "length twoFixes \<le> 100" by (simp add: twoFixes_def)
  have c: "\<not> tokenMissing (Some ''token'')" by (simp add: tokenMissing_def)
  have s: "MatchingCall (map lonLat (sortCoordinates twoFixes))
             (map (\<lambda>_. ''25'') (sortCoordinates twoFixes))
           = MatchingCall [(0, 0), (0, 0)] [''25'', ''25'']"
    by code_simp
  show ?thesis
    using adaptive_sampler_noop[where token = "Some ''token''" and matchingApi = matchingDown
            and directionsApi = directionsDown, OF a b] c s
    by simp
qed

text \<open>
  C8 (as the code has it). For a submitted sequence of fewer than 2 fixes no request is
  sent to the external service. The handler answers with the validation failure (status
  400) when the access token is configured, and with the configuration failure (status
  500) when it is not: the token is checked first.
\<close>

theorem too_few_coordinates:
  assumes "length cs < 2"
  shows "snd (POST token matchingApi directionsApi (Body (Some cs))) = []
       \<and> (\<not> tokenMissing token \<longrightarrow>
            fst (POST token matchingApi directionsApi (Body (Some cs)))
              = ErrorResponse 400 ''At least 2 coordinates are required'')
       \<and> (tokenMissing token \<longrightarrow>
            fst (POST token matchingApi directionsApi (Body (Some cs)))
              = ErrorResponse 500 ''Mapbox access token not configured'')"
  using assms by (simp add: POST_def)

theorem too_few_coordinates_witness:
  "POST (Some ''token'') matchingDown directionsDown (Body (Some [fixAt 0]))
     = (ErrorResponse 400 ''At least 2 coordinates are required'', [])
   \<and> POST None matchingDown directionsDown (Body (Some [fixAt 0]))
     = (ErrorResponse 500 ''Mapbox access token not configured'', [])"
proof -
  have a: "length [fixAt 0] < 2" by simp
  have b: "\<not> tokenMissing (Some ''token'')" by (simp add: tokenMissing_def)
  have c: "tokenMissing None" by (simp add: tokenMissing_def)
  show ?thesis
    using too_few_coordinates[OF a, of "Some ''token''" matchingDown directionsDown]
          too_few_coordinates[OF a, of None matchingDown directionsDown] b c
    by (simp add: prod_eq_iff)
qed

text \<open>
  C8 (as stated) fails: with no access token, a submission of one fix is answered with
  the configuration failure, not with the validation failure.
\<close>

theorem too_few_coordinates_counterexample:
  "length [fixAt 0] < 2
   \<and> fst (POST None matchingDown directionsDown (Body (Some [fixAt 0])))
       = ErrorResponse 500 ''Mapbox access token not configured''
   \<and> fst (POST None matchingDown directionsDown (Body (Some [fixAt 0])))
       \<noteq> ErrorResponse 400 ''At least 2 coordinates are required''"
  by (simp add: POST_def tokenMissing_def)

text \<open>
  C9. When the access token is absent (unset or empty), every submitted body, whatever
  its coordinates, is answered with the configuration failure (status 500), and no
  request is sent: neither a matching nor a directions request, and no simple line is
  built.
\<close>

theorem missing_token:
  assumes "tokenMissing token"
  shows "POST token matchingApi directionsApi (Body coordinates)
       = (ErrorResponse 500 ''Mapbox access token not configured'', [])"
  using assms by (simp add: POST_def)

theorem missing_token_witness:
  "tokenMissing None
   \<and> POST None matchingGarbled directionsOneRoute (Body (Some twoFixes))
       = (ErrorResponse 500 ''Mapbox access token not configured'', [])"
proof -
  have a: "tokenMissing None" by (simp add: tokenMissing_def)
  show ?thesis using a missing_token[OF a] by simp
qed

section \<open>The fallback cascade of the handler\<close>

lemma mapMatchingResult_None_iff:
  "mapMatchingResult ok parsed processed n = None \<longleftrightarrow>
     (\<not> ok \<or> parsed = Unparseable
      \<or> (\<exists>data. parsed = Parsed data \<and> (matchings data = None \<or> matchings data = Some [])))"
  by (auto simp: mapMatchingResult_def Let_def split: body.splits option.splits list.splits)

lemma directionsStage_calls:
  "snd (directionsStage directionsApi processed n)
     = [DirectionsCall (map lonLat (directionsCoordinates processed))]"
  by (simp add: directionsStage_def Let_def
           split: fetched.split body.split option.split list.split)

lemma directionsStage_route:
  assumes "directionsApi (DirectionsCall (map lonLat (directionsCoordinates processed)))
             = Responded True (Parsed d)"
      and "routes d = Some (route # rest)"
  shows "fst (directionsStage directionsApi processed n)
     = RouteResponse \<lparr>geometry = route_geometry route,
                      distance = Some (route_distance route),
                      duration = Some (route_duration route),
                      confidence = None,
                      route_method = ''directions'',
                      processedPoints = length (directionsCoordinates processed),
                      originalPoints = n\<rparr>"
  using assms by (simp add: directionsStage_def Let_def)

lemma directionsStage_simple:
  assumes "directionsApi (DirectionsCall (map lonLat (directionsCoordinates processed)))
             = Responded dok dparsed"
      and "\<not> dok \<or> (\<exists>d. dparsed = Parsed d \<and> (routes d = None \<or> routes d = Some []))"
  shows "fst (directionsStage directionsApi processed n)
     = RouteResponse (simpleFallback processed n)"
  using assms by (auto simp: directionsStage_def Let_def)

lemma directionsStage_no_error:
  assumes "directionsApi (DirectionsCall (map lonLat (directionsCoordinates processed))) \<noteq> Rejected"
      and "directionsApi (DirectionsCall (map lonLat (directionsCoordinates processed)))
             \<noteq> Responded True Unparseable"
  shows "routeResult (fst (directionsStage directionsApi processed n)) \<noteq> None"
  using assms
  by (simp add: directionsStage_def Let_def routeResult_def
           split: fetched.split body.split option.split list.split)

lemma POST_falls_through:
  assumes "\<not> tokenMissing token" and "2 \<le> length cs"
      and "matchingApi (matchingCall (processCoordinates (sortCoordinates cs)))
             = Responded ok parsed"
      and "mapMatchingResult ok parsed (processCoordinates (sortCoordinates cs)) (length cs) = None"
  shows "POST token matchingApi directionsApi (Body (Some cs))
     = (fst (directionsStage directionsApi (processCoordinates (sortCoordinates cs)) (length cs)),
        matchingCall (processCoordinates (sortCoordinates cs))
        # snd (directionsStage directionsApi (processCoordinates (sortCoordinates cs)) (length cs)))"
  unfolding POST_accepted[OF assms(1,2)] Let_def using assms(3,4) by simp

lemma simpleCoordinates_length:
  "length (simpleCoordinates processed) = min (length processed) 50"
  by (simp add: simpleCoordinates_def sampleEvenly_length)

lemma simpleFallback_vertexCount:
  "vertexCount (simpleFallback processed n) = min (length processed) 50"
  by (simp add: simpleFallback_def vertexCount_def simpleCoordinates_length)

lemma processCoordinates_length_bounds:
  assumes "2 \<le> length xs"
  shows "2 \<le> length (processCoordinates xs) \<and> length (processCoordinates xs) \<le> length xs"
proof (cases "maxCoordinates < length xs")
  case True
  from timeSample_size_bounds[OF True assms] show ?thesis
    by (simp add: processCoordinates_def)
next
  case False
  then have "processCoordinates xs = xs"
    by (simp add: processCoordinates_def timeSample_noop)
  then show ?thesis using assms by simp
qed

text \<open>
  C10. When the matching endpoint answers with an ok response whose body does not parse,
  or parses without a non-empty \<open>matchings\<close> list, the handler goes on: the requests
  sent are the matching request followed by the directions request, the response is the
  one the directions stage produces, and it is a route (not an error) unless the
  directions request itself throws or returns an ok body that does not parse.
\<close>

theorem matching_parse_failure_contained:
  assumes "\<not> tokenMissing token" and "2 \<le> length cs"
      and "matchingApi (matchingCall (processCoordinates (sortCoordinates cs)))
             = Responded True parsed"
      and "parsed = Unparseable
           \<or> (\<exists>data. parsed = Parsed data \<and> (matchings data = None \<or> matchings data = Some []))"
  shows "snd (POST token matchingApi directionsApi (Body (Some cs)))
           = [matchingCall (processCoordinates (sortCoordinates cs)),
              DirectionsCall
                (map lonLat (directionsCoordinates (processCoordinates (sortCoordinates cs))))]
       \<and> fst (POST token matchingApi directionsApi (Body (Some cs)))
           = fst (directionsStage directionsApi (processCoordinates (sortCoordinates cs))
                    (length cs))
       \<and> (directionsApi (DirectionsCall
              (map lonLat (directionsCoordinates (processCoordinates (sortCoordinates cs)))))
              \<noteq> Rejected
            \<and> directionsApi (DirectionsCall
              (map lonLat (directionsCoordinates (processCoordinates (sortCoordinates cs)))))
              \<noteq> Responded True Unparseable
          \<longrightarrow> routeResult (fst (POST token matchingApi directionsApi (Body (Some cs)))) \<noteq> None)"
proof -
  let ?p = "processCoordinates (sortCoordinates cs)"
  have none: "mapMatchingResult True parsed ?p (length cs) = None"
    using assms(4) by (simp add: mapMatchingResult_None_iff)
  note post = POST_falls_through[where matchingApi = matchingApi and directionsApi = directionsApi,
                OF assms(1,2,3) none]
  show ?thesis
    unfolding post by (simp add: directionsStage_calls directionsStage_no_error)
qed

theorem matching_parse_failure_contained_witness:
  "snd (POST (Some ''token'') matchingGarbled directionsDown (Body (Some twoFixes)))
     = [MatchingCall [(0, 0), (0, 0)] [''25'', ''25''], DirectionsCall [(0, 0), (0, 0)]]
   \<and> routeResult (fst (POST (Some ''token'') matchingGarbled directionsDown
                           (Body (Some twoFixes)))) \<noteq> None"
proof -
  have a: "\<not> tokenMissing (Some ''token'')" by (simp add: tokenMissing_def)
  have b: "2 \<le> length twoFixes" by (simp add: twoFixes_def)
  have c: "matchingGarbled (matchingCall (processCoordinates (sortCoordinates twoFixes)))
             = Responded True Unparseable"
    by (simp add: matchingGarbled_def)
  have d: "Unparseable = Unparseable
           \<or> (\<exists>data. (Unparseable :: MapboxMatchingResponse body) = Parsed data
                \<and> (matchings data = None \<or> matchings data = Some []))"
    by simp
  have e: "matchingCall (processCoordinates (sortCoordinates twoFixes))
             = MatchingCall [(0, 0), (0, 0)] [''25'', ''25'']"
    by code_simp
  have f: "DirectionsCall
             (map lonLat (directionsCoordinates (processCoordinates (sortCoordinates twoFixes))))
             = DirectionsCall [(0, 0), (0, 0)]"
    by code_simp
  have g: "directionsDown (DirectionsCall [(0, 0), (0, 0)]) \<noteq> Rejected
           \<and> directionsDown (DirectionsCall [(0, 0), (0, 0)]) \<noteq> Responded True Unparseable"
    by (simp add: directionsDown_def)
  show ?thesis
    using matching_parse_failure_contained[where matchingApi = matchingGarbled
            and directionsApi = directionsDown, OF a b c d] g
    unfolding e f by blast
qed

text \<open>
  C3 (as the code has it). When the matching request returns without a usable result,
  and the directions request returns a response that is not ok or an ok body without
  routes, the handler answers with the simple line: method \<open>simple\<close>, no confidence, and
  as many vertices as \<open>min n 50\<close> for the number \<open>n\<close> of time-sampled fixes, which lies
  between 2 and \<open>len\<close>. For \<open>len \<le> 100\<close> that is \<open>min len 50\<close>.
\<close>

theorem simple_fallback_result:
  assumes "\<not> tokenMissing token" and "2 \<le> length cs"
      and "matchingApi (matchingCall (processCoordinates (sortCoordinates cs)))
             = Responded ok parsed"
      and "mapMatchingResult ok parsed (processCoordinates (sortCoordinates cs)) (length cs) = None"
      and "directionsApi (DirectionsCall
             (map lonLat (directionsCoordinates (processCoordinates (sortCoordinates cs)))))
             = Responded dok dparsed"
      and "\<not> dok \<or> (\<exists>d. dparsed = Parsed d \<and> (routes d = None \<or> routes d = Some []))"
  shows "fst (POST token matchingApi directionsApi (Body (Some cs)))
           = RouteResponse (simpleFallback (processCoordinates (sortCoordinates cs)) (length cs))
       \<and> route_method (simpleFallback (processCoordinates (sortCoordinates cs)) (length cs)) = ''simple''
       \<and> confidence (simpleFallback (processCoordinates (sortCoordinates cs)) (length cs)) = None
       \<and> vertexCount (simpleFallback (processCoordinates (sortCoordinates cs)) (length cs))
           = min (length (processCoordinates (sortCoordinates cs))) 50
       \<and> 2 \<le> length (processCoordinates (sortCoordinates cs))
       \<and> length (processCoordinates (sortCoordinates cs)) \<le> length cs
       \<and> (length cs \<le> 100 \<longrightarrow>
            vertexCount (simpleFallback (processCoordinates (sortCoordinates cs)) (length cs))
              = min (length cs) 50)"
proof -
  let ?p = "processCoordinates (sortCoordinates cs)"
  have post: "fst (POST token matchingApi directionsApi (Body (Some cs)))
                = RouteResponse (simpleFallback ?p (length cs))"
    unfolding POST_falls_through[where matchingApi = matchingApi, OF assms(1,2,3,4)]
    using directionsStage_simple[where directionsApi = directionsApi, OF assms(5,6)] by simp
  have s: "2 \<le> length (sortCoordinates cs)"
    using assms(2) by (simp add: sortCoordinates_length)
  have bounds: "2 \<le> length ?p \<and> length ?p \<le> length cs"
    using processCoordinates_length_bounds[OF s] by (simp add: sortCoordinates_length)
  have small: "length cs \<le> 100 \<longrightarrow> length ?p = length cs"
    by (simp add: processCoordinates_noop sortCoordinates_length)
  show ?thesis
    using post bounds small
    by (simp add: simpleFallback_vertexCount) (simp add: simpleFallback_def)
qed

theorem simple_fallback_result_witness:
  "fst (POST (Some ''token'') matchingDown directionsDown (Body (Some twoFixes)))
     = RouteResponse (simpleFallback (processCoordinates (sortCoordinates twoFixes))
                        (length twoFixes))
   \<and> vertexCount (simpleFallback (processCoordinates (sortCoordinates twoFixes))
                    (length twoFixes))
       = min (length twoFixes) 50"
proof -
  have a: "\<not> tokenMissing (Some ''token'')" by (simp add: tokenMissing_def)
  have b: "2 \<le> length twoFixes" by (simp add: twoFixes_def)
  have c: "matchingDown (matchingCall (processCoordinates (sortCoordinates twoFixes)))
             = Responded False Unparseable"
    by (simp add: matchingDown_def)
  have d: "mapMatchingResult False Unparseable (processCoordinates (sortCoordinates twoFixes))
             (length twoFixes) = None"
    by (simp add: mapMatchingResult_def)
  have e: "directionsDown (DirectionsCall
             (map lonLat (directionsCoordinates (processCoordinates (sortCoordinates twoFixes)))))
             = Responded False Unparseable"
    by (simp add: directionsDown_def)
  have f: "\<not> False \<or> (\<exists>d. (Unparseable :: DirectionsResponse body) = Parsed d
                          \<and> (routes d = None \<or> routes d = Some []))"
    by simp
  have g: "length twoFixes \<le> 100" by (simp add: twoFixes_def)
  show ?thesis
    using simple_fallback_result[where matchingApi = matchingDown
            and directionsApi = directionsDown, OF a b c d e f] g
    by blast
qed

text \<open>
  C3 (as stated) fails. 100 fixes at time 0 and one fix at time 990: the time step is 10,
  no intermediate fix is kept, and with both services down the simple line has 2
  vertices, not \<open>min 101 50 = 50\<close>.
\<close>

theorem simple_fallback_counterexample:
  "length clusteredTimes = 101
   \<and> map_option route_method
       (routeResult (fst (POST (Some ''token'') matchingDown directionsDown
                            (Body (Some clusteredTimes))))) = Some ''simple''
   \<and> map_option vertexCount
       (routeResult (fst (POST (Some ''token'') matchingDown directionsDown
                            (Body (Some clusteredTimes))))) = Some 2
   \<and> min (length clusteredTimes) 50 = 50"
proof -
  let ?p = "processCoordinates (sortCoordinates clusteredTimes)"
  have srt: "sortCoordinates clusteredTimes = clusteredTimes" by code_simp
  have p: "?p = [fixAt 0, fixAt 990]"
    by (simp only: srt processCoordinates_def timeSample_clustered_ends)
  have len: "length clusteredTimes = 101" by (simp add: clusteredTimes_def)
  have a: "\<not> tokenMissing (Some ''token'')" by (simp add: tokenMissing_def)
  have b: "2 \<le> length clusteredTimes" by (simp add: len)
  have c: "matchingDown (matchingCall ?p) = Responded False Unparseable"
    by (simp add: matchingDown_def)
  have d: "mapMatchingResult False Unparseable ?p (length clusteredTimes) = None"
    by (simp add: mapMatchingResult_def)
  have e: "directionsDown (DirectionsCall (map lonLat (directionsCoordinates ?p)))
             = Responded False Unparseable"
    by (simp add: directionsDown_def)
  have f: "\<not> False \<or> (\<exists>d. (Unparseable :: DirectionsResponse body) = Parsed d
                          \<and> (routes d = None \<or> routes d = Some []))"
    by simp
  have post: "fst (POST (Some ''token'') matchingDown directionsDown (Body (Some clusteredTimes)))
                = RouteResponse (simpleFallback ?p (length clusteredTimes))"
    unfolding POST_falls_through[where matchingApi = matchingDown, OF a b c d]
    using directionsStage_simple[where directionsApi = directionsDown, OF e f] by simp
  have m: "route_method (simpleFallback ?p (length clusteredTimes)) = ''simple''"
    by (simp add: simpleFallback_def)
  have v: "vertexCount (simpleFallback ?p (length clusteredTimes)) = 2"
    by (simp add: simpleFallback_vertexCount p)
  show ?thesis
    unfolding post using m v len by (simp add: routeResult_def)
qed

section \<open>The directions result, on the server and in the client\<close>

lemma performMapMatching_calls:
  "2 \<le> length b \<Longrightarrow> snd (performMapMatching matchingApi b) = [matchingCall b]"
  by (simp add: performMapMatching_def Let_def
           split: fetched.split bool.split body.split option.split list.split)

lemma performDirectionsMatching_route:
  assumes "2 \<le> length cs"
      and "directionsApi (DirectionsCall (map lonLat (waypoints cs))) = Responded True (Parsed d)"
      and "routes d = Some (route # rest)"
  shows "fst (performDirectionsMatching directionsApi cs)
     = Some \<lparr>mm_geometry = route_geometry route,
              mm_method = ''directions'',
              mm_confidence = 9 / 10,
              mm_processedPoints = length (waypoints cs),
              mm_originalPoints = length cs\<rparr>"
  using assms by (simp add: performDirectionsMatching_def Let_def)

lemma processRoute_directions:
  assumes "2 \<le> length cs"
      and "fst (matchingAttempt matchingApi cs) = None"
  shows "fst (processRoute matchingApi directionsApi cs)
           = fst (performDirectionsMatching directionsApi cs)"
proof -
  obtain calls where m: "matchingAttempt matchingApi cs = (None, calls)"
    using assms(2) by (cases "matchingAttempt matchingApi cs") auto
  show ?thesis
    using assms(1) by (simp add: processRoute_def m case_prod_beta)
qed

text \<open>
  C2 (as the code has it). When map matching produces no usable result and the
  directions endpoint returns a non-empty list of routes: the client cascade
  (\<open>processRoute\<close>) returns method \<open>directions\<close> with confidence exactly \<open>0.9\<close>, and the
  server handler (\<open>POST\<close>) returns method \<open>directions\<close> without a confidence field.
\<close>

theorem directions_result:
  assumes "2 \<le> length cs" and "routes d = Some (route # rest)"
  shows "(fst (matchingAttempt clientMatchingApi cs) = None
          \<and> clientDirectionsApi (DirectionsCall (map lonLat (waypoints cs)))
              = Responded True (Parsed d)
          \<longrightarrow> map_option mm_method (fst (processRoute clientMatchingApi clientDirectionsApi cs))
                = Some ''directions''
              \<and> map_option mm_confidence
                  (fst (processRoute clientMatchingApi clientDirectionsApi cs))
                = Some (9 / 10))
       \<and> (\<not> tokenMissing token
          \<and> matchingApi (matchingCall (processCoordinates (sortCoordinates cs)))
              = Responded ok parsed
          \<and> mapMatchingResult ok parsed (processCoordinates (sortCoordinates cs)) (length cs)
              = None
          \<and> directionsApi (DirectionsCall
               (map lonLat (directionsCoordinates (processCoordinates (sortCoordinates cs)))))
              = Responded True (Parsed d)
          \<longrightarrow> map_option route_method
                  (routeResult (fst (POST token matchingApi directionsApi (Body (Some cs)))))
                = Some ''directions''
              \<and> map_option confidence
                  (routeResult (fst (POST token matchingApi directionsApi (Body (Some cs)))))
                = Some None)"
proof (intro conjI impI)
  assume c: "fst (matchingAttempt clientMatchingApi cs) = None
             \<and> clientDirectionsApi (DirectionsCall (map lonLat (waypoints cs)))
                 = Responded True (Parsed d)"
  have r: "fst (processRoute clientMatchingApi clientDirectionsApi cs)
           = Some \<lparr>mm_geometry = route_geometry route,
                    mm_method = ''directions'',
                    mm_confidence = 9 / 10,
                    mm_processedPoints = length (waypoints cs),
                    mm_originalPoints = length cs\<rparr>"
    using processRoute_directions[where matchingApi = clientMatchingApi
            and directionsApi = clientDirectionsApi, OF assms(1)]
          performDirectionsMatching_route[where directionsApi = clientDirectionsApi,
            OF assms(1) _ assms(2)] c
    by simp
  show "map_option mm_method (fst (processRoute clientMatchingApi clientDirectionsApi cs))
          = Some ''directions''"
    unfolding r by simp
  show "map_option mm_confidence (fst (processRoute clientMatchingApi clientDirectionsApi cs))
          = Some (9 / 10)"
    unfolding r by simp
next
  assume s: "\<not> tokenMissing token
          \<and> matchingApi (matchingCall (processCoordinates (sortCoordinates cs)))
              = Responded ok parsed
          \<and> mapMatchingResult ok parsed (processCoordinates (sortCoordinates cs)) (length cs)
              = None
          \<and> directionsApi (DirectionsCall
               (map lonLat (directionsCoordinates (processCoordinates (sortCoordinates cs)))))
              = Responded True (Parsed d)"
  from s have s1: "\<not> tokenMissing token" by (rule conjunct1)
  from s have s2: "matchingApi (matchingCall (processCoordinates (sortCoordinates cs)))
                     = Responded ok parsed"
    by (elim conjE)
  from s have s3: "mapMatchingResult ok parsed (processCoordinates (sortCoordinates cs))
                     (length cs) = None"
    by (elim conjE)
  from s have s4: "directionsApi (DirectionsCall
               (map lonLat (directionsCoordinates (processCoordinates (sortCoordinates cs)))))
              = Responded True (Parsed d)"
    by (elim conjE)
  note post = POST_falls_through[where matchingApi = matchingApi
                and directionsApi = directionsApi, OF s1 assms(1) s2 s3]
  note stage = directionsStage_route[where directionsApi = directionsApi and n = "length cs",
                 OF s4 assms(2)]
  show "map_option route_method
          (routeResult (fst (POST token matchingApi directionsApi (Body (Some cs)))))
        = Some ''directions''"
    unfolding post fst_conv stage by (simp add: routeResult_def)
  show "map_option confidence
          (routeResult (fst (POST token matchingApi directionsApi (Body (Some cs)))))
        = Some None"
    unfolding post fst_conv stage by (simp add: routeResult_def)
qed

theorem directions_result_witness:
  "map_option mm_confidence (fst (processRoute clientMatchingDown directionsOneRoute twoFixes))
     = Some (9 / 10)
   \<and> map_option mm_method (fst (processRoute clientMatchingDown directionsOneRoute twoFixes))
     = Some ''directions''
   \<and> map_option confidence
       (routeResult (fst (POST (Some ''token'') matchingDown directionsOneRoute
                            (Body (Some twoFixes)))))
     = Some None
   \<and> map_option route_method
       (routeResult (fst (POST (Some ''token'') matchingDown directionsOneRoute
                            (Body (Some twoFixes)))))
     = Some ''directions''"
proof -
  let ?d = "\<lparr>routes = Some [\<lparr>route_geometry = emptyLine, route_distance = 0,
                              route_duration = 0\<rparr>]\<rparr>"
  have a: "2 \<le> length twoFixes" by (simp add: twoFixes_def)
  have b: "routes ?d = Some (\<lparr>route_geometry = emptyLine, route_distance = 0,
                              route_duration = 0\<rparr> # [])"
    by simp
  have c1: "fst (matchingAttempt clientMatchingDown twoFixes) = None" by code_simp
  have c2: "directionsOneRoute (DirectionsCall (map lonLat (waypoints twoFixes)))
              = Responded True (Parsed ?d)"
    by (simp add: directionsOneRoute_def)
  have s1: "\<not> tokenMissing (Some ''token'')" by (simp add: tokenMissing_def)
  have s2: "matchingDown (matchingCall (processCoordinates (sortCoordinates twoFixes)))
              = Responded False Unparseable"
    by (simp add: matchingDown_def)
  have s3: "mapMatchingResult False Unparseable (processCoordinates (sortCoordinates twoFixes))
              (length twoFixes) = None"
    by (simp add: mapMatchingResult_def)
  have s4: "directionsOneRoute (DirectionsCall
              (map lonLat (directionsCoordinates (processCoordinates (sortCoordinates twoFixes)))))
              = Responded True (Parsed ?d)"
    by (simp add: directionsOneRoute_def)
  show ?thesis
    using directions_result[where clientMatchingApi = clientMatchingDown
            and clientDirectionsApi = directionsOneRoute
            and matchingApi = matchingDown and directionsApi = directionsOneRoute
            and token = "Some ''token''" and ok = False and parsed = Unparseable,
            OF a b]
          c1 c2 s1 s2 s3 s4
    by blast
qed

text \<open>
  C2 (as stated) fails on the server handler: with the matching service down and a
  directions response that has a route, the result has method \<open>directions\<close> and no
  confidence field, so its confidence is not \<open>0.9\<close>.
\<close>

theorem directions_result_counterexample:
  "map_option route_method
     (routeResult (fst (POST (Some ''token'') matchingDown directionsOneRoute
                          (Body (Some twoFixes)))))
     = Some ''directions''
   \<and> map_option confidence
       (routeResult (fst (POST (Some ''token'') matchingDown directionsOneRoute
                            (Body (Some twoFixes)))))
     = Some None
   \<and> map_option confidence
       (routeResult (fst (POST (Some ''token'') matchingDown directionsOneRoute
                            (Body (Some twoFixes)))))
     \<noteq> Some (Some (9 / 10))"
  by code_simp

section \<open>The batch splitter of the client\<close>

declare batchLoop.simps [simp del]

lemma batchLoop_done: "length xs \<le> i \<Longrightarrow> batchLoop i xs = []"
  by (subst batchLoop.simps) simp

lemma batchLoop_step:
  "i < length xs \<Longrightarrow>
   batchLoop i xs =
     (if 2 \<le> length (slice i (i + 100) xs) then [slice i (i + 100) xs] else [])
     @ batchLoop (i + 100) xs"
  by (subst batchLoop.simps) (simp add: Let_def maxPointsPerRequest_def)

lemma slice_length: "length (slice a b xs) = min (b - a) (length xs - a)"
  by (simp add: slice_def min.commute)

lemma batchLoop_sizes:
  "b \<in> set (batchLoop i xs) \<Longrightarrow> 2 \<le> length b \<and> length b \<le> 100"
proof (induction i xs rule: batchLoop.induct)
  case (1 i xs)
  show ?case
  proof (cases "i < length xs")
    case True
    from "1.prems" have "b = slice i (i + 100) xs \<and> 2 \<le> length (slice i (i + 100) xs)
                         \<or> b \<in> set (batchLoop (i + 100) xs)"
      unfolding batchLoop_step[OF True] by (auto split: if_splits)
    then show ?thesis
    proof
      assume "b = slice i (i + 100) xs \<and> 2 \<le> length (slice i (i + 100) xs)"
      then show ?thesis by (simp add: slice_length)
    next
      assume "b \<in> set (batchLoop (i + 100) xs)"
      then show ?thesis
        using "1.IH"[OF True refl] by (simp add: maxPointsPerRequest_def)
    qed
  next
    case False
    then show ?thesis using "1.prems" by (simp add: batchLoop_done)
  qed
qed

lemma batchLoop_nth:
  "k < length (batchLoop i xs) \<Longrightarrow>
   batchLoop i xs ! k = slice (i + k * 100) (i + k * 100 + 100) xs"
proof (induction i xs arbitrary: k rule: batchLoop.induct)
  case (1 i xs)
  show ?case
  proof (cases "i < length xs")
    case True
    note step = batchLoop_step[OF True]
    show ?thesis
    proof (cases "2 \<le> length (slice i (i + 100) xs)")
      case full: True
      then have unfold: "batchLoop i xs = slice i (i + 100) xs # batchLoop (i + 100) xs"
        using step by simp
      show ?thesis
      proof (cases k)
        case 0
        then show ?thesis by (simp add: unfold)
      next
        case (Suc k')
        then have "k' < length (batchLoop (i + 100) xs)"
          using "1.prems" by (simp add: unfold)
        from "1.IH"[OF True refl, unfolded maxPointsPerRequest_def, OF this]
        show ?thesis by (simp add: unfold Suc add.assoc add.commute)
      qed
    next
      case False
      then have "length xs \<le> i + 100" by (simp add: slice_length)
      then have "batchLoop i xs = []"
        using step False by (simp add: batchLoop_done)
      then show ?thesis using "1.prems" by simp
    qed
  next
    case False
    then show ?thesis using "1.prems" by (simp add: batchLoop_done)
  qed
qed

lemma batchLoop_concat:
  "concat (batchLoop i xs)
     = drop i (if (length xs - i) mod 100 = 1 then butlast xs else xs)"
proof (induction i xs rule: batchLoop.induct)
  case (1 i xs)
  show ?case
  proof (cases "i < length xs")
    case False
    then have "(length xs - i) mod 100 = 0" by simp
    then show ?thesis using False by (simp add: batchLoop_done)
  next
    case True
    note step = batchLoop_step[OF True]
    note IH = "1.IH"[OF True refl, unfolded maxPointsPerRequest_def]
    show ?thesis
    proof (cases "i + 100 \<le> length xs")
      case whole: True
      then have len: "length (slice i (i + 100) xs) = 100" by (simp add: slice_length)
      have m: "(length xs - (i + 100)) mod 100 = (length xs - i) mod 100"
      proof -
        have "length xs - i = (length xs - (i + 100)) + 100" using whole by simp
        then show ?thesis by (simp only: mod_add_self2)
      qed
      have c: "concat (batchLoop i xs)
               = slice i (i + 100) xs
                 @ drop (i + 100) (if (length xs - i) mod 100 = 1 then butlast xs else xs)"
        unfolding step using len IH m by simp
      show ?thesis
      proof (cases "(length xs - i) mod 100 = 1")
        case False
        have "slice i (i + 100) xs @ drop (i + 100) xs = drop i xs"
          by (simp add: slice_def add.commute[of i 100] drop_drop[symmetric]
                   del: drop_drop)
        then show ?thesis using c False by simp
      next
        case True
        then have "length xs - i \<noteq> 100" by auto
        then have big: "i + 101 \<le> length xs" using whole by simp
        have "slice i (i + 100) xs = take 100 (drop i (butlast xs))"
          using big by (simp add: slice_def butlast_conv_take drop_take min_def)
        moreover have "drop (i + 100) (butlast xs) = drop 100 (drop i (butlast xs))"
          by (simp add: add.commute)
        ultimately have "slice i (i + 100) xs @ drop (i + 100) (butlast xs)
                         = drop i (butlast xs)"
          by (simp only: append_take_drop_id)
        then show ?thesis using c True by simp
      qed
    next
      case short: False
      then have rest: "batchLoop (i + 100) xs = []" by (simp add: batchLoop_done)
      have sl: "slice i (i + 100) xs = drop i xs"
        using short by (simp add: slice_def)
      have small: "(length xs - i) mod 100 = length xs - i"
        using short by simp
      show ?thesis
      proof (cases "length xs - i = 1")
        case True
        then have "drop i (butlast xs) = []" by simp
        then show ?thesis
          unfolding step rest using True sl small by simp
      next
        case False
        then have "2 \<le> length (drop i xs)" using \<open>i < length xs\<close> by simp
        then show ?thesis
          unfolding step rest using False sl small by simp
      qed
    qed
  qed
qed

lemma batchLoop_full_before_last:
  assumes "Suc k < length (batchLoop i xs)"
  shows "length (batchLoop i xs ! k) = 100"
proof -
  have "batchLoop i xs ! Suc k \<in> set (batchLoop i xs)"
    using assms by simp
  then have "2 \<le> length (batchLoop i xs ! Suc k)"
    using batchLoop_sizes by blast
  then have "2 \<le> min 100 (length xs - (i + Suc k * 100))"
    using batchLoop_nth[OF assms] by (simp add: slice_length)
  then have "i + k * 100 + 100 \<le> length xs" by simp
  moreover have "k < length (batchLoop i xs)" using assms by simp
  ultimately show ?thesis
    using batchLoop_nth[of k i xs] by (simp add: slice_length)
qed

lemma performBatchMapMatching_calls:
  assumes "2 \<le> length cs"
  shows "snd (performBatchMapMatching matchingApi cs) = map matchingCall (splitBatches cs)"
proof -
  have each: "snd (performMapMatching matchingApi b) = [matchingCall b]"
    if "b \<in> set (splitBatches cs)" for b
    using batchLoop_sizes[of b 0 cs] that
    by (simp add: splitBatches_def performMapMatching_calls)
  have "concat (map snd (map (performMapMatching matchingApi) (splitBatches cs)))
        = concat (map (\<lambda>b. [matchingCall b]) (splitBatches cs))"
    unfolding map_map by (rule arg_cong[of _ _ concat], rule map_cong[OF refl]) (simp add: each)
  also have "\<dots> = map matchingCall (splitBatches cs)"
    by (induction "splitBatches cs") simp_all
  finally have calls: "concat (map snd (map (performMapMatching matchingApi) (splitBatches cs)))
                       = map matchingCall (splitBatches cs)" .
  show ?thesis
    using assms calls by (simp add: performBatchMapMatching_def Let_def)
qed

text \<open>
  C1. For a sequence longer than \<open>maxPointsPerRequest = 100\<close> the client pipeline splits
  before matching: the matching requests it sends are one per batch, in order. Batch
  \<open>k\<close> is the window \<open>[100 k, 100 k + 100)\<close> of the sequence; every batch but the last
  has exactly 100 fixes; every batch has between 2 and 100 fixes; and the batches
  concatenated give the sequence back, without its last fix when the trailing window
  holds that fix alone.
\<close>

theorem splitBatches_partition:
  assumes "maxPointsPerRequest < length cs"
  shows "snd (matchingAttempt matchingApi cs) = map matchingCall (splitBatches cs)
       \<and> concat (splitBatches cs)
           = (if length cs mod maxPointsPerRequest = 1 then butlast cs else cs)
       \<and> (\<forall>b \<in> set (splitBatches cs). 2 \<le> length b \<and> length b \<le> maxPointsPerRequest)
       \<and> (\<forall>k < length (splitBatches cs).
             splitBatches cs ! k
               = slice (k * maxPointsPerRequest) (k * maxPointsPerRequest + maxPointsPerRequest) cs)
       \<and> (\<forall>k. Suc k < length (splitBatches cs)
             \<longrightarrow> length (splitBatches cs ! k) = maxPointsPerRequest)"
proof (intro conjI allI ballI impI)
  have long: "2 \<le> length cs" and over: "\<not> length cs \<le> 100"
    using assms by (simp_all add: maxPointsPerRequest_def)
  show "snd (matchingAttempt matchingApi cs) = map matchingCall (splitBatches cs)"
    using over performBatchMapMatching_calls[OF long] by (simp add: matchingAttempt_def)
  show "concat (splitBatches cs)
          = (if length cs mod maxPointsPerRequest = 1 then butlast cs else cs)"
    using batchLoop_concat[of 0 cs] by (simp add: splitBatches_def maxPointsPerRequest_def)
next
  fix b assume "b \<in> set (splitBatches cs)"
  then have "2 \<le> length b \<and> length b \<le> maxPointsPerRequest"
    using batchLoop_sizes[of b 0 cs] by (simp add: splitBatches_def maxPointsPerRequest_def)
  then show "2 \<le> length b" and "length b \<le> maxPointsPerRequest" by simp_all
next
  fix k assume "k < length (splitBatches cs)"
  then show "splitBatches cs ! k
      = slice (k * maxPointsPerRequest) (k * maxPointsPerRequest + maxPointsPerRequest) cs"
    using batchLoop_nth[of k 0 cs] by (simp add: splitBatches_def maxPointsPerRequest_def)
next
  fix k assume "Suc k < length (splitBatches cs)"
  then show "length (splitBatches cs ! k) = maxPointsPerRequest"
    using batchLoop_full_before_last[of k 0 cs]
    by (simp add: splitBatches_def maxPointsPerRequest_def)
qed

theorem splitBatches_partition_witness:
  "maxPointsPerRequest < length equalTimes
   \<and> map length (splitBatches equalTimes) = [100]
   \<and> concat (splitBatches equalTimes) = butlast equalTimes
   \<and> snd (matchingAttempt clientMatchingDown equalTimes)
       = [matchingCall (slice 0 100 equalTimes)]"
proof -
  have a: "maxPointsPerRequest < length equalTimes"
    by (simp add: maxPointsPerRequest_def equalTimes_def)
  have l: "map length (splitBatches equalTimes) = [100]" by code_simp
  have m: "length equalTimes mod maxPointsPerRequest = 1" by code_simp
  have s: "map matchingCall (splitBatches equalTimes) = [matchingCall (slice 0 100 equalTimes)]"
    by code_simp
  note t = splitBatches_partition[where matchingApi = clientMatchingDown, OF a]
  from t have c: "concat (splitBatches equalTimes)
                    = (if length equalTimes mod maxPointsPerRequest = 1
                       then butlast equalTimes else equalTimes)"
    by (elim conjE)
  from t have r: "snd (matchingAttempt clientMatchingDown equalTimes)
                    = map matchingCall (splitBatches equalTimes)"
    by (rule conjunct1)
  show ?thesis
    using a l c r unfolding m s by simp
qed

end
